theory Spec2Isabelle
  imports Main "HOL-Library.Sublist"
begin

section \<open>The report\<close>

text \<open>
  \<open>operationreport.Report\<close> collects internal and external errors; \<open>HasErrors\<close> holds as
  soon as one of the two lists is not empty. The errors this development distinguishes are
  the ones the planner itself creates and the field-not-resolvable error with the type
  and field it names; every other error (a traversal error, a registration error) is an
  \<open>ErrOther\<close> with its message.
\<close>

datatype reportError =
    ErrRequiredOperationNameIsMissing
  | ErrOperationWithProvidedOperationNameNotFound string
  | ErrCouldNotPlan "string list"
  | ErrFieldNotResolvable string string
  | ErrOther string

record Report =
  InternalErrors :: "reportError list"
  ExternalErrors :: "reportError list"

definition emptyReport :: Report where
  "emptyReport = \<lparr>InternalErrors = [], ExternalErrors = []\<rparr>"

definition HasErrors :: "Report \<Rightarrow> bool" where
  "HasErrors r = (InternalErrors r \<noteq> [] \<or> ExternalErrors r \<noteq> [])"

definition AddInternalError :: "reportError \<Rightarrow> Report \<Rightarrow> Report" where
  "AddInternalError e r = r\<lparr>InternalErrors := InternalErrors r @ [e]\<rparr>"

definition AddExternalError :: "reportError \<Rightarrow> Report \<Rightarrow> Report" where
  "AddExternalError e r = r\<lparr>ExternalErrors := ExternalErrors r @ [e]\<rparr>"

section \<open>Data sources and the traversal\<close>

text \<open>
  Modelled from the spec: the declaration of \<open>DataSourceConfiguration\<close> with its methods
  \<open>Id\<close>, \<open>HasRootNode\<close> and \<open>HasChildNode\<close> is not part of the sources at hand. The spec
  describes it as an identity plus \<open>rootNodes\<close>/\<open>childNodes\<close>, mappings from a type name
  to the field names the source resolves; a pair (type, field) is a root (child) node when
  some entry for the type lists the field.
\<close>

record DataSourceConfiguration =
  dsId :: string
  RootNodes :: "(string \<times> string list) list"
  ChildNodes :: "(string \<times> string list) list"

definition hasNode :: "(string \<times> string list) list \<Rightarrow> string \<Rightarrow> string \<Rightarrow> bool" where
  "hasNode nodes typeName fieldName =
     list_ex (\<lambda>(tn, fns). tn = typeName \<and> fieldName \<in> set fns) nodes"

definition HasRootNode :: "DataSourceConfiguration \<Rightarrow> string \<Rightarrow> string \<Rightarrow> bool" where
  "HasRootNode ds typeName fieldName = hasNode (RootNodes ds) typeName fieldName"

definition HasChildNode :: "DataSourceConfiguration \<Rightarrow> string \<Rightarrow> string \<Rightarrow> bool" where
  "HasChildNode ds typeName fieldName = hasNode (ChildNodes ds) typeName fieldName"

text \<open>
  Modelled from the spec: the documents and the traversal engine (\<open>astvisitor.Walker\<close>)
  are external collaborators, a depth-first visitor abstraction that invokes the
  registered callbacks on entering fields. \<open>findUsedDataSourceVisitor\<close> only listens: it
  neither stops the walker nor changes the documents. One walk over (operation,
  definition) is therefore given by what it hands to the callbacks, in order: for each
  \<open>EnterField\<close> the name of the enclosing type definition and the field name, and the
  errors the walker itself adds to the report.
\<close>

record Walk =
  enteredFields :: "(string \<times> string) list"
  walkInternalErrors :: "reportError list"
  walkExternalErrors :: "reportError list"

definition walkReport :: "Walk \<Rightarrow> Report \<Rightarrow> Report" where
  "walkReport w r =
     r\<lparr>InternalErrors := InternalErrors r @ walkInternalErrors w,
       ExternalErrors := ExternalErrors r @ walkExternalErrors w\<rparr>"

section \<open>The minimal-cover selector\<close>

record UsedNode =
  TypeName :: string
  FieldName :: string

record UsedDataSourceConfiguration =
  DataSource :: DataSourceConfiguration
  UsedNodes :: "UsedNode list"

datatype selectError =
    errOperationFieldNotResolved string string
  | errReport Report
  | panicReportNil

record findUsedDataSourceVisitor =
  dataSources :: "UsedDataSourceConfiguration list"
  err :: "selectError option"

text \<open>
  The loop of \<open>EnterField\<close> over the visitor's data sources: the first data source that
  has the pair as a root or child node gets the used node appended, and the loop breaks.
  The second component is the variable \<open>found\<close>.
\<close>

fun enterFieldLoop ::
  "UsedDataSourceConfiguration list \<Rightarrow> string \<Rightarrow> string \<Rightarrow> UsedDataSourceConfiguration list \<times> bool"
where
  "enterFieldLoop [] typeName fieldName = ([], False)"
| "enterFieldLoop (v # vs) typeName fieldName =
     (if HasRootNode (DataSource v) typeName fieldName \<or> HasChildNode (DataSource v) typeName fieldName
      then (v\<lparr>UsedNodes := UsedNodes v @ [\<lparr>TypeName = typeName, FieldName = fieldName\<rparr>]\<rparr> # vs, True)
      else (let (vs', found) = enterFieldLoop vs typeName fieldName in (v # vs', found)))"

definition EnterField :: "findUsedDataSourceVisitor \<Rightarrow> string \<times> string \<Rightarrow> findUsedDataSourceVisitor" where
  "EnterField v ref =
     (let typeName = fst ref; fieldName = snd ref;
          (dss, found) = enterFieldLoop (dataSources v) typeName fieldName;
          v = v\<lparr>dataSources := dss\<rparr>
      in if \<not> found then v\<lparr>err := Some (errOperationFieldNotResolved typeName fieldName)\<rparr> else v)"

definition walkVisitor :: "Walk \<Rightarrow> findUsedDataSourceVisitor \<Rightarrow> findUsedDataSourceVisitor" where
  "walkVisitor w v = foldl EnterField v (enteredFields w)"

text \<open>
  \<open>findUsedDataSources\<close>. The report is a pointer: \<open>None\<close> is the nil pointer, on which
  the function panics; otherwise the walk writes into it, and the second component of
  the result is the report as the caller sees it afterwards.
\<close>

definition findUsedDataSources ::
  "Walk \<Rightarrow> Report option \<Rightarrow> DataSourceConfiguration list
     \<Rightarrow> (selectError + UsedDataSourceConfiguration list) \<times> Report option"
where
  "findUsedDataSources w report dss =
     (case report of
        None \<Rightarrow> (Inl panicReportNil, None)
      | Some r \<Rightarrow>
          (let dataSourcesToVisit = map (\<lambda>v. \<lparr>DataSource = v, UsedNodes = []\<rparr>) dss;
               visitor = walkVisitor w \<lparr>dataSources = dataSourcesToVisit, err = None\<rparr>;
               r = walkReport w r
           in if HasErrors r then (Inl (errReport r), Some r)
              else (case err visitor of
                      Some e \<Rightarrow> (Inl e, Some r)
                    | None \<Rightarrow> (Inr (filter (\<lambda>v. UsedNodes v \<noteq> []) (dataSources visitor)), Some r))))"

definition dataSourcesSubset :: "DataSourceConfiguration list \<Rightarrow> nat \<Rightarrow> DataSourceConfiguration list" where
  "dataSourcesSubset dss exclude = take exclude dss @ drop (Suc exclude) dss"

text \<open>
  \<open>findBestDataSourceSet\<close> and its loop \<open>for excluded := range dataSources\<close>, which is
  \<open>bestLoop\<close> with the loop variable \<open>excluded\<close> and the variable \<open>best\<close> as arguments. A
  nil report is replaced by a fresh one. A used-data-source slice is nil exactly when
  it is empty, so \<open>result != nil\<close> is \<open>result \<noteq> []\<close>.
\<close>

function findBestDataSourceSet ::
  "Walk \<Rightarrow> Report option \<Rightarrow> DataSourceConfiguration list
     \<Rightarrow> (selectError + UsedDataSourceConfiguration list) \<times> Report option"
and bestLoop ::
  "Walk \<Rightarrow> Report option \<Rightarrow> DataSourceConfiguration list \<Rightarrow> nat \<Rightarrow> UsedDataSourceConfiguration list
     \<Rightarrow> (selectError + UsedDataSourceConfiguration list) \<times> Report option"
where
  "findBestDataSourceSet w report dss =
     (let report = (case report of None \<Rightarrow> Some emptyReport | Some r \<Rightarrow> Some r)
      in case findUsedDataSources w report dss of
           (Inl e, report) \<Rightarrow> (Inl e, report)
         | (Inr planned, report) \<Rightarrow>
             if length planned = 1 then (Inr planned, report)
             else bestLoop w report dss 0 planned)"
| "bestLoop w report dss excluded best =
     (if excluded < length dss then
        (case findBestDataSourceSet w report (dataSourcesSubset dss excluded) of
           (Inl (errOperationFieldNotResolved t f), report) \<Rightarrow> bestLoop w report dss (Suc excluded) best
         | (Inl e, report) \<Rightarrow> (Inl e, report)
         | (Inr result, report) \<Rightarrow>
             bestLoop w report dss (Suc excluded)
               (if result \<noteq> [] \<and> length result < length best then result else best))
      else (Inr best, report))"
  by pat_completeness auto
termination
  by (relation "inv_image (less_than <*lex*> less_than) (\<lambda>x. case x of
          Inl (w, report, dss) \<Rightarrow> (length dss, length dss + 2)
        | Inr (w, report, dss, excluded, best) \<Rightarrow> (length dss, length dss + 1 - excluded))")
     (auto simp: dataSourcesSubset_def)

declare findBestDataSourceSet.simps [simp del] bestLoop.simps [simp del]



section \<open>The planner\<close>

text \<open>
  Modelled from the spec: the per-data-source planner configuration with its method
  \<open>RemoveLeafFragmentPaths\<close> is not part of the sources at hand. The spec gives a
  planner a parent path and an ordered list of path configurations, and has the pruner
  remove any path that was opened for a fragment-type match but never received a
  confirmed field selection underneath it, a path being confirmed once at least one
  concrete field, not just a bare fragment entry, was appended. A path is a list of
  segments; a fragment path has a confirmed field selection underneath when some field
  path of the same planner properly extends it. The result tells whether a path was
  removed. (The comment in \<open>removeUnnecessaryFragmentPaths\<close> describes the same step as
  removing the fragment paths that are not prefixes of any other path.)
\<close>

datatype PathType = PathTypeField | PathTypeFragment

record pathConfiguration =
  path :: "string list"
  pathType :: PathType

record plannerConfiguration =
  parentPath :: "string list"
  paths :: "pathConfiguration list"

definition hasFieldSelectionBelow :: "pathConfiguration list \<Rightarrow> pathConfiguration \<Rightarrow> bool" where
  "hasFieldSelectionBelow ps p =
     list_ex (\<lambda>q. pathType q = PathTypeField \<and> strict_prefix (path p) (path q)) ps"

definition isLeafFragmentPath :: "pathConfiguration list \<Rightarrow> pathConfiguration \<Rightarrow> bool" where
  "isLeafFragmentPath ps p = (pathType p = PathTypeFragment \<and> \<not> hasFieldSelectionBelow ps p)"

definition RemoveLeafFragmentPaths :: "plannerConfiguration \<Rightarrow> plannerConfiguration \<times> bool" where
  "RemoveLeafFragmentPaths planner =
     (let kept = filter (\<lambda>p. \<not> isLeafFragmentPath (paths planner) p) (paths planner)
      in (planner\<lparr>paths := kept\<rparr>, length kept < length (paths planner)))"

text \<open>
  The \<open>Planner\<close> with its two visitors, as far as the planner's own code reads and
  writes them: fields of \<open>configurationVisitor\<close> carry the prefix \<open>cv\<close>, fields of the
  planning \<open>Visitor\<close> the prefix \<open>pv\<close>. The missing-path tracker is a Go map keyed by
  path: the list holds its keys, in the order in which a \<open>range\<close> yields them. The
  debug configuration only prints and is left out.
\<close>

record 'p Planner =
  configDataSources :: "DataSourceConfiguration list"
  cvOperationName :: string
  cvDataSources :: "DataSourceConfiguration list"
  cvSecondaryRun :: bool
  cvHasNewFields :: bool
  cvMissingPathTracker :: "string list"
  cvFieldsWaitingForDependency :: "nat list"
  cvPlanners :: "plannerConfiguration list"
  pvOperationName :: string
  pvIncludeQueryPlans :: bool
  pvPlanners :: "plannerConfiguration list"
  pvPlan :: "'p option"





text \<open>
  Modelled from the spec: what the planner calls but does not contain. The world \<open>'w\<close>
  holds the operation and definition documents handed to \<open>Plan\<close> together with the
  state the external components keep (node suggestions and hints, skipped field refs,
  the internals of walkers and of the per-data-source planners). Each collaborator is a
  function of what it can reach:
  \<^item> \<open>TrimSpace\<close> is \<open>strings.TrimSpace\<close>;
  \<^item> \<open>operationDefinitionNames\<close> lists the names of the operation definitions of the
    operation document by ref: \<open>NumOfOperationDefinitions\<close> is its length,
    \<open>OperationDefinitionNameString(0)\<close> its first entry and \<open>OperationNameExists\<close>
    membership;
  \<^item> \<open>prepareOperationWalk\<close> is the walk of the normalisation walker;
  \<^item> \<open>filterDataSources\<close> is \<open>DataSourceFilter.FilterDataSources\<close>, told whether the
    existing suggestions and hints are passed, returning the used data sources;
  \<^item> \<open>configurationWalk\<close> and \<open>planningWalk\<close> are the walks of the two visitors;
  \<^item> \<open>setupPlanningWalker\<close> resets the planning walker and registers the planning
    visitor's callbacks;
  \<^item> \<open>registerPlanner\<close> is the body of the registration loop for one planner key, up
    to and including \<open>Register\<close>, returning its error if any.
\<close>

record ('w, 'p) collaborators =
  TrimSpace :: "string \<Rightarrow> string"
  operationDefinitionNames :: "'w \<Rightarrow> string list"
  prepareOperationWalk :: "'w \<Rightarrow> Report \<Rightarrow> 'w \<times> Report"
  filterDataSources :: "DataSourceConfiguration list \<Rightarrow> bool \<Rightarrow> 'w \<Rightarrow> Report
                          \<Rightarrow> (DataSourceConfiguration list \<times> 'w) \<times> Report"
  configurationWalk :: "'p Planner \<Rightarrow> 'w \<Rightarrow> Report \<Rightarrow> 'p Planner \<times> 'w \<times> Report"
  setupPlanningWalker :: "'w \<Rightarrow> 'w"
  registerPlanner :: "bool \<Rightarrow> nat \<Rightarrow> 'p Planner \<Rightarrow> 'w \<Rightarrow> string option \<times> 'p Planner \<times> 'w"
  planningWalk :: "'p Planner \<Rightarrow> 'w \<Rightarrow> Report \<Rightarrow> 'p Planner \<times> 'w \<times> Report"


definition selectOperation ::
  "('w, 'p) collaborators \<Rightarrow> 'p Planner \<Rightarrow> 'w \<Rightarrow> string \<Rightarrow> Report \<Rightarrow> 'p Planner \<times> Report" where
  "selectOperation ext p operation operationName report =
     (let numOfOperations = length (operationDefinitionNames ext operation);
          operationName = TrimSpace ext operationName
      in if length operationName = 0 \<and> numOfOperations > 1
         then (p, AddExternalError ErrRequiredOperationNameIsMissing report)
         else
           (let operationName =
                  (if length operationName = 0 \<and> numOfOperations = 1
                   then operationDefinitionNames ext operation ! 0 else operationName)
            in if operationName \<notin> set (operationDefinitionNames ext operation)
               then (p, AddExternalError (ErrOperationWithProvidedOperationNameNotFound operationName) report)
               else (p\<lparr>cvOperationName := operationName, pvOperationName := operationName\<rparr>, report)))"

text \<open>
  Modelled from the spec: \<open>shouldRevisit\<close> of the configuration visitor is
  \<open>hasNewFields || missingPathTracker.nonEmpty() || hasFieldsWaitingForDependency()\<close>.
\<close>

definition shouldRevisit :: "'p Planner \<Rightarrow> bool" where
  "shouldRevisit p =
     (cvHasNewFields p \<or> cvMissingPathTracker p \<noteq> [] \<or> cvFieldsWaitingForDependency p \<noteq> [])"

fun removeLoop :: "plannerConfiguration list \<Rightarrow> bool \<Rightarrow> plannerConfiguration list \<times> bool" where
  "removeLoop [] hasRemovedPaths = ([], hasRemovedPaths)"
| "removeLoop (planner # rest) hasRemovedPaths =
     (let (planner', removed) = RemoveLeafFragmentPaths planner;
          (rest', hasRemovedPaths') = removeLoop rest (if removed then True else hasRemovedPaths)
      in (planner' # rest', hasRemovedPaths'))"

definition removeUnnecessaryFragmentPaths :: "'p Planner \<Rightarrow> 'p Planner \<times> bool" where
  "removeUnnecessaryFragmentPaths p =
     (let (planners, hasRemovedPaths) = removeLoop (cvPlanners p) False
      in (p\<lparr>cvPlanners := planners\<rparr>, hasRemovedPaths))"

text \<open>
  \<open>findPlanningPaths\<close> in three parts. \<open>initialRun\<close> is the function up to the loop,
  \<open>revisitLoop\<close> the loop \<open>for p.configurationVisitor.shouldRevisit()\<close> with its counter
  \<open>i\<close>. The first component of both results tells whether the function has returned
  (\<open>True\<close>) or control goes on to the next statement (\<open>False\<close>); \<open>revisitLoop\<close> also
  returns the final value of \<open>i\<close>, which is one more than the number of secondary walks
  completed. The check of the report after the refresh of the suggestions stands inside
  \<open>if hasNewFields\<close>; the refresh assigns the data sources and suggestions only, so the
  condition is the same before and after it.
\<close>

definition initialRun ::
  "('w, 'p) collaborators \<Rightarrow> 'p Planner \<Rightarrow> 'w \<Rightarrow> Report \<Rightarrow> bool \<times> 'p Planner \<times> 'w \<times> Report" where
  "initialRun ext p w report =
     (let ((used, w), report) = filterDataSources ext (configDataSources p) False w report;
          p = p\<lparr>cvDataSources := used\<rparr>
      in if HasErrors report then (True, p, w, report)
         else
           (let p = p\<lparr>cvSecondaryRun := False\<rparr>;
                (p, w, report) = configurationWalk ext p w report
            in if HasErrors report then (True, p, w, report) else (False, p, w, report)))"

function revisitLoop ::
  "('w, 'p) collaborators \<Rightarrow> nat \<Rightarrow> 'p Planner \<Rightarrow> 'w \<Rightarrow> Report
     \<Rightarrow> bool \<times> nat \<times> 'p Planner \<times> 'w \<times> Report" where
  "revisitLoop ext i p w report =
     (if shouldRevisit p then
        (let p = p\<lparr>cvSecondaryRun := True\<rparr>;
             (p, w, report) =
               (if cvHasNewFields p
                then (let ((used, w), report) = filterDataSources ext (configDataSources p) True w report
                      in (p\<lparr>cvDataSources := used\<rparr>, w, report))
                else (p, w, report))
         in if cvHasNewFields p \<and> HasErrors report then (True, i, p, w, report)
            else
              (let (p, w, report) = configurationWalk ext p w report
               in if HasErrors report then (True, i, p, w, report)
                  else
                    (let i = i + 1
                     in if i > 100
                        then (True, i, p, w, AddInternalError (ErrCouldNotPlan (cvMissingPathTracker p)) report)
                        else revisitLoop ext i p w report)))
      else (False, i, p, w, report))"
  by pat_completeness auto
termination
  by (relation "measure (\<lambda>(ext, i, p, w, report). 101 - i)") auto

declare revisitLoop.simps [simp del]

definition findPlanningPaths ::
  "('w, 'p) collaborators \<Rightarrow> 'p Planner \<Rightarrow> 'w \<Rightarrow> Report \<Rightarrow> 'p Planner \<times> 'w \<times> Report" where
  "findPlanningPaths ext p w report =
     (case initialRun ext p w report of
        (True, p, w, report) \<Rightarrow> (p, w, report)
      | (False, p, w, report) \<Rightarrow>
          (case revisitLoop ext 1 p w report of
             (True, i, p, w, report) \<Rightarrow> (p, w, report)
           | (False, i, p, w, report) \<Rightarrow>
               (let (p, hasRemovedPaths) = removeUnnecessaryFragmentPaths p in (p, w, report))))"

text \<open>
  The registration loop of \<open>Plan\<close> over the keys of \<open>planningVisitor.planners\<close>: the
  first planner whose registration fails ends the loop with its error.
\<close>

fun registerLoop ::
  "('w, 'p) collaborators \<Rightarrow> bool \<Rightarrow> nat list \<Rightarrow> 'p Planner \<Rightarrow> 'w \<Rightarrow> string option \<times> 'p Planner \<times> 'w" where
  "registerLoop ext includeQueryPlanInResponse [] p w = (None, p, w)"
| "registerLoop ext includeQueryPlanInResponse (key # keys) p w =
     (case registerPlanner ext includeQueryPlanInResponse key p w of
        (Some e, p, w) \<Rightarrow> (Some e, p, w)
      | (None, p, w) \<Rightarrow> registerLoop ext includeQueryPlanInResponse keys p w)"

text \<open>
  \<open>Plan\<close>, written stage by stage from its end: every definition is the part of the
  function body that starts at the named statement and runs to the end of the function,
  so that each \<open>return\<close> after a failed stage is the end of the computation. The options
  only set \<open>includeQueryPlanInResponse\<close>; the report is the caller's (non-nil) report.
  The result is the returned plan (\<open>None\<close> is nil) with the planner, the world and the
  report as the call leaves them. Computing the data source hashes changes nothing the
  model holds.
\<close>

text \<open>From \<open>p.planningWalker.Walk(operation, definition, report)\<close>.\<close>

definition planFromWalk ::
  "('w, 'p) collaborators \<Rightarrow> 'p Planner \<Rightarrow> 'w \<Rightarrow> Report \<Rightarrow> 'p option \<times> 'p Planner \<times> 'w \<times> Report" where
  "planFromWalk ext p w report =
     (let (p, w, report) = planningWalk ext p w report
      in if HasErrors report then (None, p, w, report) else (pvPlan p, p, w, report))"

text \<open>From the configuration of the planning visitor, through the registration loop.\<close>

definition planFromRegistration ::
  "('w, 'p) collaborators \<Rightarrow> 'p Planner \<Rightarrow> 'w \<Rightarrow> Report \<Rightarrow> bool
     \<Rightarrow> 'p option \<times> 'p Planner \<times> 'w \<times> Report" where
  "planFromRegistration ext p w report includeQueryPlanInResponse =
     (let p = p\<lparr>pvPlanners := cvPlanners p\<rparr>;
          w = setupPlanningWalker ext w
      in case registerLoop ext includeQueryPlanInResponse [0..<length (pvPlanners p)] p w of
           (Some e, p, w) \<Rightarrow> (None, p, w, AddInternalError (ErrOther e) report)
         | (None, p, w) \<Rightarrow> planFromWalk ext p w report)"

text \<open>From \<open>p.findPlanningPaths(operation, definition, report)\<close>.\<close>

definition planFromPaths ::
  "('w, 'p) collaborators \<Rightarrow> 'p Planner \<Rightarrow> 'w \<Rightarrow> Report \<Rightarrow> bool
     \<Rightarrow> 'p option \<times> 'p Planner \<times> 'w \<times> Report" where
  "planFromPaths ext p w report includeQueryPlanInResponse =
     (let (p, w, report) = findPlanningPaths ext p w report
      in if HasErrors report then (None, p, w, report)
         else planFromRegistration ext p w report includeQueryPlanInResponse)"

text \<open>From \<open>p.prepareOperation(operation, definition, report)\<close>.\<close>

definition planFromPrepare ::
  "('w, 'p) collaborators \<Rightarrow> 'p Planner \<Rightarrow> 'w \<Rightarrow> Report \<Rightarrow> bool
     \<Rightarrow> 'p option \<times> 'p Planner \<times> 'w \<times> Report" where
  "planFromPrepare ext p w report includeQueryPlanInResponse =
     (let (w, report) = prepareOperationWalk ext w report
      in if HasErrors report then (None, p, w, report)
         else planFromPaths ext p w report includeQueryPlanInResponse)"

definition Plan ::
  "('w, 'p) collaborators \<Rightarrow> 'p Planner \<Rightarrow> 'w \<Rightarrow> string \<Rightarrow> Report \<Rightarrow> bool
     \<Rightarrow> 'p option \<times> 'p Planner \<times> 'w \<times> Report" where
  "Plan ext p w operationName report includeQueryPlanInResponse =
     (let p = p\<lparr>pvIncludeQueryPlans := includeQueryPlanInResponse\<rparr>;
          (p, report) = selectOperation ext p w operationName report
      in if HasErrors report then (None, p, w, report)
         else planFromPrepare ext p w report includeQueryPlanInResponse)"

section \<open>Notions used to state the properties\<close>

text \<open>
  A data source covers a field when the pair (enclosing type name, field name) is one of
  its root or child nodes. A list of data sources resolves a list of fields when every
  field is covered by at least one of them.
\<close>

definition covers :: "DataSourceConfiguration \<Rightarrow> string \<times> string \<Rightarrow> bool" where
  "covers ds ref = (HasRootNode ds (fst ref) (snd ref) \<or> HasChildNode ds (fst ref) (snd ref))"

definition resolvable :: "DataSourceConfiguration list \<Rightarrow> string \<times> string \<Rightarrow> bool" where
  "resolvable dss ref = list_ex (\<lambda>d. covers d ref) dss"

definition resolves :: "DataSourceConfiguration list \<Rightarrow> (string \<times> string) list \<Rightarrow> bool" where
  "resolves dss refs = list_all (resolvable dss) refs"

definition unresolved :: "DataSourceConfiguration list \<Rightarrow> (string \<times> string) list \<Rightarrow> (string \<times> string) list" where
  "unresolved dss refs = filter (\<lambda>ref. \<not> resolvable dss ref) refs"

text \<open>The index of the first data source of the list that covers the field.\<close>

fun firstCovering :: "DataSourceConfiguration list \<Rightarrow> string \<times> string \<Rightarrow> nat option" where
  "firstCovering [] ref = None"
| "firstCovering (d # ds) ref = (if covers d ref then Some 0 else map_option Suc (firstCovering ds ref))"

definition usedNodeOf :: "string \<times> string \<Rightarrow> UsedNode" where
  "usedNodeOf ref = \<lparr>TypeName = fst ref, FieldName = snd ref\<rparr>"

text \<open>
  The visitor as \<open>findUsedDataSources\<close> sets it up, the visitor after the walk, and the
  used data sources the function makes of it.
\<close>

definition visitorStart :: "DataSourceConfiguration list \<Rightarrow> findUsedDataSourceVisitor" where
  "visitorStart dss = \<lparr>dataSources = map (\<lambda>v. \<lparr>DataSource = v, UsedNodes = []\<rparr>) dss, err = None\<rparr>"

definition visited :: "Walk \<Rightarrow> DataSourceConfiguration list \<Rightarrow> findUsedDataSourceVisitor" where
  "visited w dss = walkVisitor w (visitorStart dss)"

definition usedOf :: "Walk \<Rightarrow> DataSourceConfiguration list \<Rightarrow> UsedDataSourceConfiguration list" where
  "usedOf w dss = filter (\<lambda>v. UsedNodes v \<noteq> []) (dataSources (visited w dss))"

text \<open>
  A result is a minimal cover of the fields when its data sources are taken from the
  configured list, resolve every field, and no selection of configured data sources that
  resolves every field has fewer members.
\<close>

definition minimalCover ::
  "DataSourceConfiguration list \<Rightarrow> (string \<times> string) list \<Rightarrow> UsedDataSourceConfiguration list \<Rightarrow> bool" where
  "minimalCover dss refs out =
     (subseq (map DataSource out) dss \<and> resolves (map DataSource out) refs \<and>
      (\<forall>S. set S \<subseteq> set dss \<and> resolves S refs \<longrightarrow> length out \<le> card (set S)))"

text \<open>
  The candidates of one call of \<open>findBestDataSourceSet\<close>, in the order in which the code
  meets them: the result of \<open>findUsedDataSources\<close> on the whole list, then the results
  of the recursive calls that succeed, by ascending excluded index. \<open>firstShortest\<close>
  says that a candidate is the first one of minimum length.
\<close>

definition candidates ::
  "Walk \<Rightarrow> Report option \<Rightarrow> DataSourceConfiguration list \<Rightarrow> nat \<Rightarrow> UsedDataSourceConfiguration list list" where
  "candidates w report dss from =
     concat (map (\<lambda>excluded.
        case fst (findBestDataSourceSet w report (dataSourcesSubset dss excluded)) of
          Inr result \<Rightarrow> [result] | Inl e \<Rightarrow> []) [from..<length dss])"

definition firstShortest :: "'a list \<Rightarrow> 'a list list \<Rightarrow> bool" where
  "firstShortest out cands =
     (list_ex (\<lambda>k. cands ! k = out \<and> list_all (\<lambda>c. length out < length c) (take k cands))
        [0..<length cands] \<and>
      list_all (\<lambda>c. length out \<le> length c) cands)"

text \<open>
  The loop of \<open>findBestDataSourceSet\<close> seen as a function of the candidates it meets:
  a candidate replaces the current best only when it is strictly shorter.
\<close>

fun adoptShorter :: "'a list \<Rightarrow> 'a list list \<Rightarrow> 'a list" where
  "adoptShorter best [] = best"
| "adoptShorter best (c # cs) = adoptShorter (if length c < length best then c else best) cs"

text \<open>
  The same minimality among the sublists of the configured list, which is the form the
  recursion establishes, and what one call of \<open>findBestDataSourceSet\<close> on a report
  without errors yields.
\<close>

definition minimalSublistCover ::
  "DataSourceConfiguration list \<Rightarrow> (string \<times> string) list \<Rightarrow> UsedDataSourceConfiguration list \<Rightarrow> bool" where
  "minimalSublistCover dss refs out =
     (subseq (map DataSource out) dss \<and> resolves (map DataSource out) refs \<and>
      (refs \<noteq> [] \<longrightarrow> out \<noteq> []) \<and>
      (\<forall>S. subseq S dss \<and> resolves S refs \<longrightarrow> length out \<le> length S))"

definition selectorOutcome :: "Walk \<Rightarrow> Report \<Rightarrow> DataSourceConfiguration list \<Rightarrow> bool" where
  "selectorOutcome w r dss =
     (snd (findBestDataSourceSet w (Some r) dss) = Some r \<and>
      (if resolves dss (enteredFields w)
       then \<exists>out. fst (findBestDataSourceSet w (Some r) dss) = Inr out \<and>
              minimalSublistCover dss (enteredFields w) out \<and>
              firstShortest out (usedOf w dss # candidates w (Some r) dss 0)
       else \<exists>t f. fst (findBestDataSourceSet w (Some r) dss) = Inl (errOperationFieldNotResolved t f)))"

text \<open>The report a call of \<open>findBestDataSourceSet\<close> works on: a fresh one for nil.\<close>

definition reportOf :: "Report option \<Rightarrow> Report" where
  "reportOf report = (case report of None \<Rightarrow> emptyReport | Some r \<Rightarrow> r)"


section \<open>Example inputs\<close>

definition exA :: DataSourceConfiguration where
  "exA = \<lparr>dsId = ''A'', RootNodes = [(''Query'', [''a''])], ChildNodes = []\<rparr>"

definition exB :: DataSourceConfiguration where
  "exB = \<lparr>dsId = ''B'', RootNodes = [(''Query'', [''b''])], ChildNodes = []\<rparr>"

definition exC :: DataSourceConfiguration where
  "exC = \<lparr>dsId = ''C'', RootNodes = [(''Query'', [''a'', ''b''])], ChildNodes = []\<rparr>"

definition exC2 :: DataSourceConfiguration where
  "exC2 = \<lparr>dsId = ''C2'', RootNodes = [(''Query'', [''b'', ''a''])], ChildNodes = []\<rparr>"

definition exWalk :: Walk where
  "exWalk = \<lparr>enteredFields = [(''Query'', ''a''), (''Query'', ''b'')],
             walkInternalErrors = [], walkExternalErrors = []\<rparr>"

definition exWalkXY :: Walk where
  "exWalkXY = \<lparr>enteredFields = [(''Query'', ''x''), (''Query'', ''a''), (''Query'', ''y'')],
               walkInternalErrors = [], walkExternalErrors = []\<rparr>"

text \<open>
  Collaborators for the examples: the world is the list of operation names of the
  operation document; trimming removes blanks; every walk succeeds, and the planning
  walk produces the plan \<open>0\<close>. The variants differ in one collaborator each.
\<close>

definition exTrimSpace :: "string \<Rightarrow> string" where
  "exTrimSpace s = rev (dropWhile (\<lambda>c. c = CHR '' '') (rev (dropWhile (\<lambda>c. c = CHR '' '') s)))"

definition exExt :: "(string list, nat) collaborators" where
  "exExt = \<lparr>TrimSpace = exTrimSpace,
            operationDefinitionNames = (\<lambda>w. w),
            prepareOperationWalk = (\<lambda>w report. (w, report)),
            filterDataSources = (\<lambda>dss secondary w report. ((dss, w), report)),
            configurationWalk = (\<lambda>p w report. (p\<lparr>cvHasNewFields := False\<rparr>, w, report)),
            setupPlanningWalker = (\<lambda>w. w),
            registerPlanner = (\<lambda>includeQueryPlan key p w. (None, p, w)),
            planningWalk = (\<lambda>p w report. (p\<lparr>pvPlan := Some 0\<rparr>, w, report))\<rparr>"

definition exPlanner :: "nat Planner" where
  "exPlanner = \<lparr>configDataSources = [exA, exB], cvOperationName = [], cvDataSources = [],
               cvSecondaryRun = False, cvHasNewFields = False, cvMissingPathTracker = [],
               cvFieldsWaitingForDependency = [], cvPlanners = [], pvOperationName = [],
               pvIncludeQueryPlans = False, pvPlanners = [], pvPlan = None\<rparr>"


definition exPaths :: plannerConfiguration where
  "exPaths = \<lparr>parentPath = [''query''],
      paths = [\<lparr>path = [''query'', ''a''], pathType = PathTypeField\<rparr>,
               \<lparr>path = [''query'', ''a'', ''$0User''], pathType = PathTypeFragment\<rparr>,
               \<lparr>path = [''query'', ''b'', ''$0Admin''], pathType = PathTypeFragment\<rparr>,
               \<lparr>path = [''query'', ''b'', ''$0Admin'', ''id''], pathType = PathTypeField\<rparr>]\<rparr>"

definition exPathsPruned :: plannerConfiguration where
  "exPathsPruned = \<lparr>parentPath = [''query''],
      paths = [\<lparr>path = [''query'', ''a''], pathType = PathTypeField\<rparr>,
               \<lparr>path = [''query'', ''b'', ''$0Admin''], pathType = PathTypeFragment\<rparr>,
               \<lparr>path = [''query'', ''b'', ''$0Admin'', ''id''], pathType = PathTypeField\<rparr>]\<rparr>"

definition exExtPaths :: "(string list, nat) collaborators" where
  "exExtPaths = exExt\<lparr>configurationWalk :=
       (\<lambda>p w report. (p\<lparr>cvHasNewFields := False, cvPlanners := [exPaths, exPathsPruned]\<rparr>, w, report))\<rparr>"

definition exExtFailPrepare :: "(string list, nat) collaborators" where
  "exExtFailPrepare = exExt\<lparr>prepareOperationWalk :=
       (\<lambda>w report. (w, AddInternalError (ErrOther ''normalization failed'') report))\<rparr>"

definition exExtFailRegister :: "(string list, nat) collaborators" where
  "exExtFailRegister = exExtPaths\<lparr>registerPlanner :=
       (\<lambda>includeQueryPlan key p w. (Some ''registration failed'', p, w @ [''registered'']))\<rparr>"



section \<open>The visitor of the selector\<close>

lemma resolvable_iff: "resolvable dss ref \<longleftrightarrow> (\<exists>d\<in>set dss. covers d ref)"
  by (simp add: resolvable_def list_ex_iff)

lemma resolves_iff: "resolves dss refs \<longleftrightarrow> (\<forall>ref\<in>set refs. \<exists>d\<in>set dss. covers d ref)"
  by (simp add: resolves_def list_all_iff resolvable_iff)

lemma firstCovering_None: "firstCovering dss ref = None \<longleftrightarrow> \<not> resolvable dss ref"
  by (induction dss) (auto simp: resolvable_iff)

lemma firstCovering_Some:
  "firstCovering dss ref = Some i \<Longrightarrow>
     i < length dss \<and> covers (dss ! i) ref \<and> (\<forall>j<i. \<not> covers (dss ! j) ref)"
proof (induction dss arbitrary: i)
  case Nil
  then show ?case by simp
next
  case (Cons d ds)
  show ?case
  proof (cases "covers d ref")
    case True
    with Cons.prems show ?thesis by simp
  next
    case False
    with Cons.prems obtain k where k: "firstCovering ds ref = Some k" "i = Suc k" by auto
    from Cons.IH[OF k(1)] False k(2) show ?thesis
      by (auto simp: nth_Cons split: nat.splits)
  qed
qed

lemma enterFieldLoop_found:
  "snd (enterFieldLoop vs t f) = (firstCovering (map DataSource vs) (t, f) \<noteq> None)"
  by (induction vs) (auto simp: covers_def split: prod.splits)

lemma enterFieldLoop_DataSource:
  "map DataSource (fst (enterFieldLoop vs t f)) = map DataSource vs"
  by (induction vs) (auto split: prod.splits)

lemma enterFieldLoop_nth:
  "i < length vs \<Longrightarrow>
   fst (enterFieldLoop vs t f) ! i =
     (if firstCovering (map DataSource vs) (t, f) = Some i
      then (vs ! i)\<lparr>UsedNodes := UsedNodes (vs ! i) @ [usedNodeOf (t, f)]\<rparr> else vs ! i)"
proof (induction vs arbitrary: i)
  case Nil
  then show ?case by simp
next
  case (Cons v vs)
  show ?case
  proof (cases "covers (DataSource v) (t, f)")
    case True
    then show ?thesis using Cons.prems by (cases i) (auto simp: covers_def usedNodeOf_def)
  next
    case False
    show ?thesis
    proof (cases i)
      case 0
      with False show ?thesis by (auto simp: covers_def split: prod.splits)
    next
      case (Suc k)
      with Cons.prems have "k < length vs" by simp
      from Cons.IH[OF this] False Suc show ?thesis
        by (auto simp: covers_def split: prod.splits)
    qed
  qed
qed

lemma EnterField_DataSource:
  "map DataSource (dataSources (EnterField v ref)) = map DataSource (dataSources v)"
  using enterFieldLoop_DataSource[of "dataSources v" "fst ref" "snd ref"]
  by (simp add: EnterField_def Let_def case_prod_beta)

lemma EnterField_UsedNodes:
  assumes "i < length (dataSources v)"
  shows "UsedNodes (dataSources (EnterField v ref) ! i) =
           UsedNodes (dataSources v ! i) @
             (if firstCovering (map DataSource (dataSources v)) ref = Some i then [usedNodeOf ref] else [])"
  using enterFieldLoop_nth[OF assms, of "fst ref" "snd ref"]
  by (simp add: EnterField_def Let_def case_prod_beta)

lemma EnterField_err:
  "err (EnterField v ref) =
     (if firstCovering (map DataSource (dataSources v)) ref = None
      then Some (errOperationFieldNotResolved (fst ref) (snd ref)) else err v)"
  using enterFieldLoop_found[of "dataSources v" "fst ref" "snd ref"]
  by (simp add: EnterField_def Let_def case_prod_beta)

lemma foldl_EnterField_DataSource:
  "map DataSource (dataSources (foldl EnterField v refs)) = map DataSource (dataSources v)"
  by (induction refs arbitrary: v) (simp_all add: EnterField_DataSource)

lemma fields_DataSource:
  "map DataSource (dataSources (foldl EnterField (visitorStart dss) refs)) = dss"
  by (simp add: foldl_EnterField_DataSource visitorStart_def comp_def)

lemma fields_length: "length (dataSources (foldl EnterField (visitorStart dss) refs)) = length dss"
  using fields_DataSource[of dss refs] by (metis length_map)

lemma fields_UsedNodes:
  "i < length dss \<Longrightarrow>
   UsedNodes (dataSources (foldl EnterField (visitorStart dss) refs) ! i) =
     map usedNodeOf (filter (\<lambda>ref. firstCovering dss ref = Some i) refs)"
proof (induction refs rule: rev_induct)
  case Nil
  then show ?case by (simp add: visitorStart_def)
next
  case (snoc ref refs)
  let ?v = "foldl EnterField (visitorStart dss) refs"
  have len: "i < length (dataSources ?v)" using snoc.prems by (simp add: fields_length)
  show ?case
    using EnterField_UsedNodes[OF len, of ref] snoc.IH[OF snoc.prems]
    by (simp add: fields_DataSource)
qed

lemma fields_err:
  "err (foldl EnterField (visitorStart dss) refs) =
     (if unresolved dss refs = [] then None
      else Some (errOperationFieldNotResolved (fst (last (unresolved dss refs)))
                                            (snd (last (unresolved dss refs)))))"
proof (induction refs rule: rev_induct)
  case Nil
  then show ?case by (simp add: visitorStart_def unresolved_def)
next
  case (snoc ref refs)
  show ?case
    using snoc.IH
    by (simp add: EnterField_err fields_DataSource firstCovering_None unresolved_def)
qed

lemma visited_DataSource: "map DataSource (dataSources (visited w dss)) = dss"
  by (simp add: visited_def walkVisitor_def fields_DataSource)

lemma visited_length: "length (dataSources (visited w dss)) = length dss"
  by (simp add: visited_def walkVisitor_def fields_length)

lemma visited_UsedNodes:
  "i < length dss \<Longrightarrow>
   UsedNodes (dataSources (visited w dss) ! i) =
     map usedNodeOf (filter (\<lambda>ref. firstCovering dss ref = Some i) (enteredFields w))"
  by (simp add: visited_def walkVisitor_def fields_UsedNodes)

lemma visited_err:
  "err (visited w dss) =
     (if unresolved dss (enteredFields w) = [] then None
      else Some (errOperationFieldNotResolved (fst (last (unresolved dss (enteredFields w))))
                                            (snd (last (unresolved dss (enteredFields w))))))"
  by (simp add: visited_def walkVisitor_def fields_err)

lemma unresolved_Nil_iff: "unresolved dss refs = [] \<longleftrightarrow> resolves dss refs"
  by (auto simp: unresolved_def resolves_def filter_empty_conv list_all_iff)

section \<open>The used data sources\<close>

lemma walkReport_clean: "\<not> HasErrors (walkReport w r) \<Longrightarrow> walkReport w r = r"
  by (simp add: HasErrors_def walkReport_def)

lemma findUsedDataSources_Some:
  "findUsedDataSources w (Some r) dss =
     (if HasErrors (walkReport w r) then Inl (errReport (walkReport w r))
      else if resolves dss (enteredFields w) then Inr (usedOf w dss)
      else Inl (errOperationFieldNotResolved (fst (last (unresolved dss (enteredFields w))))
                                           (snd (last (unresolved dss (enteredFields w))))),
      Some (walkReport w r))"
  using visited_err[of w dss]
  by (simp add: findUsedDataSources_def usedOf_def Let_def visited_def
        visitorStart_def[symmetric] unresolved_Nil_iff)

lemma findUsedDataSources_clean:
  assumes "\<not> HasErrors (walkReport w r)"
  shows "findUsedDataSources w (Some r) dss =
           (if resolves dss (enteredFields w) then Inr (usedOf w dss)
            else Inl (errOperationFieldNotResolved (fst (last (unresolved dss (enteredFields w))))
                                                 (snd (last (unresolved dss (enteredFields w))))),
            Some r)"
  using assms walkReport_clean[OF assms] by (simp add: findUsedDataSources_Some)

lemma usedOf_subseq: "subseq (map DataSource (usedOf w dss)) dss"
proof -
  have "subseq (map DataSource (usedOf w dss)) (map DataSource (dataSources (visited w dss)))"
    unfolding usedOf_def by (rule subseq_map) simp
  then show ?thesis by (simp add: visited_DataSource)
qed

lemma usedOf_covering:
  assumes "ref \<in> set (enteredFields w)" and "firstCovering dss ref = Some i"
  shows "dataSources (visited w dss) ! i \<in> set (usedOf w dss) \<and>
         DataSource (dataSources (visited w dss) ! i) = dss ! i \<and>
         usedNodeOf ref \<in> set (UsedNodes (dataSources (visited w dss) ! i))"
proof -
  let ?vs = "dataSources (visited w dss)"
  from firstCovering_Some[OF assms(2)] have il: "i < length dss" by simp
  have un: "usedNodeOf ref \<in> set (UsedNodes (?vs ! i))"
    using assms by (simp add: visited_UsedNodes[OF il])
  then have ne: "UsedNodes (?vs ! i) \<noteq> []" by auto
  have mem: "?vs ! i \<in> set ?vs" using il by (simp add: visited_length)
  have "DataSource (?vs ! i) = dss ! i"
    using visited_DataSource[of w dss] il by (metis nth_map visited_length)
  with ne mem un show ?thesis by (simp add: usedOf_def)
qed

lemma usedOf_resolves:
  assumes "resolves dss (enteredFields w)"
  shows "resolves (map DataSource (usedOf w dss)) (enteredFields w)"
  unfolding resolves_iff
proof
  fix ref assume ref: "ref \<in> set (enteredFields w)"
  with assms have "firstCovering dss ref \<noteq> None"
    by (auto simp: resolves_iff firstCovering_None resolvable_iff)
  then obtain i where i: "firstCovering dss ref = Some i" by auto
  from firstCovering_Some[OF i] have "covers (dss ! i) ref" by simp
  with usedOf_covering[OF ref i]
  have "dataSources (visited w dss) ! i \<in> set (usedOf w dss) \<and>
        covers (DataSource (dataSources (visited w dss) ! i)) ref" by simp
  then have "\<exists>u\<in>set (usedOf w dss). covers (DataSource u) ref" by blast
  then show "\<exists>d\<in>set (map DataSource (usedOf w dss)). covers d ref" by simp
qed

lemma usedOf_no_fields: "enteredFields w = [] \<Longrightarrow> usedOf w dss = []"
  by (simp add: usedOf_def visited_def walkVisitor_def visitorStart_def filter_empty_conv)

lemma resolves_nonempty: "resolves xs refs \<Longrightarrow> refs \<noteq> [] \<Longrightarrow> xs \<noteq> []"
  by (cases refs) (auto simp: resolves_iff)

lemma resolves_mono: "resolves S refs \<Longrightarrow> set S \<subseteq> set T \<Longrightarrow> resolves T refs"
  by (auto simp: resolves_iff)

section \<open>Sublists of the configured data sources\<close>

lemma subseq_excluded:
  "subseq S dss \<Longrightarrow> S \<noteq> dss \<Longrightarrow> \<exists>j<length dss. subseq S (dataSourcesSubset dss j)"
proof (induction dss arbitrary: S)
  case Nil
  then show ?case by simp
next
  case (Cons d ds)
  show ?case
  proof (cases S)
    case Nil
    then show ?thesis by (intro exI[of _ 0]) simp
  next
    case (Cons s S')
    show ?thesis
    proof (cases "s = d")
      case True
      with Cons Cons.prems have "subseq S' ds" "S' \<noteq> ds" by auto
      from Cons.IH[OF this] obtain j where "j < length ds" "subseq S' (dataSourcesSubset ds j)" by auto
      then show ?thesis using True Cons
        by (intro exI[of _ "Suc j"]) (simp add: dataSourcesSubset_def)
    next
      case False
      with Cons Cons.prems have "subseq S ds" by auto
      then show ?thesis by (intro exI[of _ 0]) (simp add: dataSourcesSubset_def)
    qed
  qed
qed

lemma subseq_dataSourcesSubset: "subseq (dataSourcesSubset dss j) dss"
proof -
  have "subseq (drop (Suc j) dss) (drop j dss)"
    by (metis drop_Suc suffix_imp_subseq suffix_tl tl_drop)
  then have "subseq (take j dss @ drop (Suc j) dss) (take j dss @ drop j dss)"
    by (intro list_emb_append_mono) simp_all
  then show ?thesis by (simp add: dataSourcesSubset_def)
qed

lemma dataSourcesSubset_length: "j < length dss \<Longrightarrow> length (dataSourcesSubset dss j) < length dss"
  by (simp add: dataSourcesSubset_def)

lemma subseq_set: "subseq xs ys \<Longrightarrow> set xs \<subseteq> set ys"
  by (auto dest: list_emb_set)

lemma subseq_remdups: "subseq (remdups xs) xs"
  by (induction xs) auto

lemma selection_as_subseq:
  assumes "set S \<subseteq> set dss"
  shows "\<exists>S'. subseq S' dss \<and> set S' = set S \<and> length S' = card (set S)"
proof -
  let ?S' = "remdups (filter (\<lambda>d. d \<in> set S) dss)"
  have "subseq ?S' (filter (\<lambda>d. d \<in> set S) dss)" by (rule subseq_remdups)
  then have "subseq ?S' dss" using subseq_filter_left subseq_order.order_trans by blast
  moreover have st: "set ?S' = set S" using assms by auto
  moreover have "length ?S' = card (set ?S')"
    by (metis distinct_card distinct_remdups)
  ultimately show ?thesis using st by (intro exI[of _ ?S']) (simp only: simp_thms)
qed

section \<open>Adopting strictly shorter candidates\<close>

lemma adoptShorter_split:
  "\<exists>pre post. best # cs = pre @ adoptShorter best cs # post \<and>
       (\<forall>c\<in>set pre. length (adoptShorter best cs) < length c) \<and>
       (\<forall>c\<in>set post. length (adoptShorter best cs) \<le> length c)"
proof (induction cs arbitrary: best)
  case Nil
  show ?case by (intro exI[of _ "[]"]) simp
next
  case (Cons c cs)
  show ?case
  proof (cases "length c < length best")
    case True
    from Cons.IH[of c] obtain pre post where s: "c # cs = pre @ adoptShorter c cs # post"
      "\<forall>x\<in>set pre. length (adoptShorter c cs) < length x"
      "\<forall>x\<in>set post. length (adoptShorter c cs) \<le> length x" by blast
    have "c \<in> set (pre @ adoptShorter c cs # post)" using s(1) by (metis list.set_intros(1))
    with s(2,3) have "length (adoptShorter c cs) \<le> length c" by auto
    with True have lt: "length (adoptShorter c cs) < length best" by simp
    have eq: "adoptShorter best (c # cs) = adoptShorter c cs" using True by simp
    have sp: "best # c # cs = (best # pre) @ adoptShorter c cs # post" using s(1) by simp
    show ?thesis unfolding eq
      by (rule exI[of _ "best # pre"], rule exI[of _ post]) (use sp s(2,3) lt in simp)
  next
    case False
    from Cons.IH[of best] obtain pre post where s: "best # cs = pre @ adoptShorter best cs # post"
      "\<forall>x\<in>set pre. length (adoptShorter best cs) < length x"
      "\<forall>x\<in>set post. length (adoptShorter best cs) \<le> length x" by blast
    have eq: "adoptShorter best (c # cs) = adoptShorter best cs" using False by simp
    show ?thesis
    proof (cases pre)
      case Nil
      with s(1) have b: "adoptShorter best cs = best" and p: "post = cs" by auto
      have sp: "best # c # cs = [] @ adoptShorter best cs # (c # cs)" using b by simp
      show ?thesis unfolding eq
        by (rule exI[of _ "[]"], rule exI[of _ "c # cs"]) (use sp s(3) b p False in simp)
    next
      case (Cons b pre')
      with s(1) have b: "b = best" and cs: "cs = pre' @ adoptShorter best cs # post" by auto
      from s(2) Cons b have lt: "length (adoptShorter best cs) < length best" by simp
      with False have ltc: "length (adoptShorter best cs) < length c" by simp
      have sp: "best # c # cs = (best # c # pre') @ adoptShorter best cs # post" using cs by simp
      have pre': "\<forall>x\<in>set pre'. length (adoptShorter best cs) < length x" using s(2) Cons by simp
      show ?thesis unfolding eq
        by (rule exI[of _ "best # c # pre'"], rule exI[of _ post]) (use sp s(3) lt ltc pre' in simp)
    qed
  qed
qed

lemma firstShortest_split:
  assumes "cands = pre @ out # post"
    and "\<forall>c\<in>set pre. length out < length c" and "\<forall>c\<in>set post. length out \<le> length c"
  shows "firstShortest out cands"
proof -
  have "length pre \<in> set [0..<length cands]" using assms(1) by simp
  moreover have "cands ! length pre = out" using assms(1) by simp
  moreover have "take (length pre) cands = pre" using assms(1) by simp
  ultimately have "list_ex (\<lambda>k. cands ! k = out \<and> list_all (\<lambda>c. length out < length c) (take k cands))
                     [0..<length cands]"
    unfolding list_ex_iff using assms(2) by (intro bexI[of _ "length pre"]) (simp_all add: list_all_iff)
  moreover have "list_all (\<lambda>c. length out \<le> length c) cands"
    using assms by (auto simp: list_all_iff)
  ultimately show ?thesis by (simp add: firstShortest_def)
qed

lemma adoptShorter_firstShortest: "firstShortest (adoptShorter best cs) (best # cs)"
  using adoptShorter_split[of best cs] firstShortest_split by blast

lemma firstShortest_le: "firstShortest out cands \<Longrightarrow> c \<in> set cands \<Longrightarrow> length out \<le> length c"
  by (simp add: firstShortest_def list_all_iff)

lemma firstShortest_mem: "firstShortest out cands \<Longrightarrow> out \<in> set cands"
  by (auto simp: firstShortest_def list_ex_iff)

lemma adoptShorter_Nil: "adoptShorter [] cs = []"
  by (induction cs) simp_all

section \<open>The exclusion loop\<close>

lemma candidates_end: "\<not> i < length dss \<Longrightarrow> candidates w report dss i = []"
  by (simp add: candidates_def)

lemma candidates_step:
  "i < length dss \<Longrightarrow>
   candidates w report dss i =
     (case fst (findBestDataSourceSet w report (dataSourcesSubset dss i)) of
        Inr result \<Rightarrow> [result] | Inl e \<Rightarrow> []) @ candidates w report dss (Suc i)"
  by (simp add: candidates_def upt_conv_Cons)

lemma candidates_mem:
  "c \<in> set (candidates w report dss i) \<longleftrightarrow>
     (\<exists>j. i \<le> j \<and> j < length dss \<and> fst (findBestDataSourceSet w report (dataSourcesSubset dss j)) = Inr c)"
proof
  assume "c \<in> set (candidates w report dss i)"
  then show "\<exists>j. i \<le> j \<and> j < length dss \<and>
      fst (findBestDataSourceSet w report (dataSourcesSubset dss j)) = Inr c"
    by (auto simp: candidates_def split: sum.splits)
next
  assume "\<exists>j. i \<le> j \<and> j < length dss \<and>
      fst (findBestDataSourceSet w report (dataSourcesSubset dss j)) = Inr c"
  then obtain j where j: "i \<le> j" "j < length dss"
    "fst (findBestDataSourceSet w report (dataSourcesSubset dss j)) = Inr c" by blast
  then have jm: "j \<in> set [i..<length dss]" by simp
  let ?f = "\<lambda>excluded. case fst (findBestDataSourceSet w report (dataSourcesSubset dss excluded)) of
          Inr result \<Rightarrow> [result] | Inl e \<Rightarrow> []"
  have "c \<in> set (?f j)" using j(3) by simp
  with jm have "c \<in> (\<Union>x\<in>set [i..<length dss]. set (?f x))" by blast
  then show "c \<in> set (candidates w report dss i)"
    unfolding candidates_def by simp
qed

lemma selectorOutcome_cases:
  assumes "selectorOutcome w r dss"
  obtains (found) out where "findBestDataSourceSet w (Some r) dss = (Inr out, Some r)"
      "resolves dss (enteredFields w)" "minimalSublistCover dss (enteredFields w) out"
    | (failed) t f where "findBestDataSourceSet w (Some r) dss = (Inl (errOperationFieldNotResolved t f), Some r)"
      "\<not> resolves dss (enteredFields w)"
proof (cases "resolves dss (enteredFields w)")
  case True
  with assms obtain out where "fst (findBestDataSourceSet w (Some r) dss) = Inr out"
    "snd (findBestDataSourceSet w (Some r) dss) = Some r" "minimalSublistCover dss (enteredFields w) out"
    unfolding selectorOutcome_def by auto
  then show ?thesis using True found by (simp add: prod_eq_iff)
next
  case False
  with assms obtain t f where "fst (findBestDataSourceSet w (Some r) dss) = Inl (errOperationFieldNotResolved t f)"
    "snd (findBestDataSourceSet w (Some r) dss) = Some r"
    unfolding selectorOutcome_def by auto
  then show ?thesis using False failed by (simp add: prod_eq_iff)
qed

lemma bestLoop_adopts:
  assumes sub: "\<And>j. j < length dss \<Longrightarrow> selectorOutcome w r (dataSourcesSubset dss j)"
    and inv: "enteredFields w = [] \<longrightarrow> best = []"
  shows "bestLoop w (Some r) dss i best =
           (Inr (adoptShorter best (candidates w (Some r) dss i)), Some r)"
  using inv
proof (induction "length dss - i" arbitrary: i best)
  case 0
  then have "\<not> i < length dss" by simp
  then show ?case by (subst bestLoop.simps) (simp add: candidates_end)
next
  case (Suc n)
  then have lt: "i < length dss" and n: "n = length dss - Suc i" by auto
  from sub[OF lt] show ?case
  proof (cases rule: selectorOutcome_cases)
    case (found res)
    let ?best = "if res \<noteq> [] \<and> length res < length best then res else best"
    have same: "?best = (if length res < length best then res else best)"
      using found(3) Suc.prems by (auto simp: minimalSublistCover_def)
    have "enteredFields w = [] \<longrightarrow> ?best = []" using Suc.prems by auto
    from Suc.hyps(1)[OF n this]
    have "bestLoop w (Some r) dss (Suc i) ?best =
            (Inr (adoptShorter ?best (candidates w (Some r) dss (Suc i))), Some r)" .
    then show ?thesis using lt found(1) same
      by (subst bestLoop.simps) (simp add: candidates_step)
  next
    case (failed t f)
    from Suc.hyps(1)[OF n Suc.prems]
    have "bestLoop w (Some r) dss (Suc i) best =
            (Inr (adoptShorter best (candidates w (Some r) dss (Suc i))), Some r)" .
    then show ?thesis using lt failed(1)
      by (subst bestLoop.simps) (simp add: candidates_step)
  qed
qed


section \<open>The result of the selector on a report without errors\<close>

lemma findBestDataSourceSet_None:
  "findBestDataSourceSet w None dss = findBestDataSourceSet w (Some emptyReport) dss"
  by (subst (1 2) findBestDataSourceSet.simps) simp

lemma findBestDataSourceSet_dirty:
  assumes "HasErrors (walkReport w r)"
  shows "findBestDataSourceSet w (Some r) dss = (Inl (errReport (walkReport w r)), Some (walkReport w r))"
  using assms by (subst findBestDataSourceSet.simps) (simp add: findUsedDataSources_Some)

lemma findBestDataSourceSet_unresolved:
  assumes "\<not> HasErrors (walkReport w r)" and "\<not> resolves dss (enteredFields w)"
  shows "findBestDataSourceSet w (Some r) dss =
           (Inl (errOperationFieldNotResolved (fst (last (unresolved dss (enteredFields w))))
                                              (snd (last (unresolved dss (enteredFields w))))), Some r)"
  using assms findUsedDataSources_clean[OF assms(1), of dss]
  by (subst findBestDataSourceSet.simps) simp

lemma findBestDataSourceSet_clean:
  assumes clean: "\<not> HasErrors (walkReport w r)"
  shows "selectorOutcome w r dss"
proof (induction "length dss" arbitrary: dss rule: less_induct)
  case less
  let ?refs = "enteredFields w"
  note fu = findUsedDataSources_clean[OF clean, of dss]
  show ?case
  proof (cases "resolves dss ?refs")
    case False
    then show ?thesis
      using findBestDataSourceSet_unresolved[OF clean False] by (simp add: selectorOutcome_def)
  next
    case True
    let ?planned = "usedOf w dss"
    let ?cands = "candidates w (Some r) dss 0"
    have sub: "selectorOutcome w r (dataSourcesSubset dss j)" if "j < length dss" for j
      using less[OF dataSourcesSubset_length[OF that]] .
    have p1: "subseq (map DataSource ?planned) dss" by (rule usedOf_subseq)
    have p2: "resolves (map DataSource ?planned) ?refs" by (rule usedOf_resolves[OF True])
    have p3: "(?refs = []) = (?planned = [])"
      using resolves_nonempty[OF p2] usedOf_no_fields[of w dss] by auto
    have plen: "length ?planned \<le> length dss"
      using p1 by (metis length_map list_emb_length)
    have cand: "subseq (map DataSource c) dss \<and> resolves (map DataSource c) ?refs \<and>
                (?refs \<noteq> [] \<longrightarrow> c \<noteq> [])" if "c \<in> set ?cands" for c
    proof -
      from that obtain j where j: "j < length dss"
        "fst (findBestDataSourceSet w (Some r) (dataSourcesSubset dss j)) = Inr c"
        by (auto simp: candidates_mem)
      from sub[OF j(1)] j(2) have "minimalSublistCover (dataSourcesSubset dss j) ?refs c"
        by (cases rule: selectorOutcome_cases) auto
      then show ?thesis
        using subseq_dataSourcesSubset[of dss j]
        by (auto simp: minimalSublistCover_def intro: subseq_order.order_trans)
    qed
    have cover: "minimalSublistCover dss ?refs out"
      if fs: "firstShortest out (?planned # ?cands)" for out
      unfolding minimalSublistCover_def
    proof (intro conjI allI impI)
      from firstShortest_mem[OF fs] have "out = ?planned \<or> out \<in> set ?cands" by simp
      with p1 p2 p3 cand
      show "subseq (map DataSource out) dss" "resolves (map DataSource out) ?refs"
        "?refs \<noteq> [] \<Longrightarrow> out \<noteq> []" by auto
    next
      fix S assume S: "subseq S dss \<and> resolves S ?refs"
      show "length out \<le> length S"
      proof (cases "S = dss")
        case True
        with firstShortest_le[OF fs, of ?planned] plen show ?thesis by simp
      next
        case False
        with S subseq_excluded[of S dss] obtain j where j: "j < length dss"
          "subseq S (dataSourcesSubset dss j)" by auto
        from S j(2) have "resolves (dataSourcesSubset dss j) ?refs"
          using resolves_mono subseq_set by blast
        with sub[OF j(1)] obtain c where c:
          "fst (findBestDataSourceSet w (Some r) (dataSourcesSubset dss j)) = Inr c"
          "minimalSublistCover (dataSourcesSubset dss j) ?refs c"
          by (cases rule: selectorOutcome_cases) auto
        from c(2) j(2) S have "length c \<le> length S" by (simp add: minimalSublistCover_def)
        moreover from c(1) j(1) have "c \<in> set ?cands" by (auto simp: candidates_mem)
        then have "length out \<le> length c" using firstShortest_le[OF fs] by simp
        ultimately show ?thesis by linarith
      qed
    qed
    show ?thesis
    proof (cases "length ?planned = 1")
      case one: True
      then have refs: "?refs \<noteq> []" using p3 by auto
      have "\<forall>c\<in>set ?cands. length ?planned \<le> length c"
      proof
        fix c assume "c \<in> set ?cands"
        from cand[OF this] refs have "c \<noteq> []" by simp
        then show "length ?planned \<le> length c" using one by (cases c) simp_all
      qed
      then have fs: "firstShortest ?planned (?planned # ?cands)"
        by (intro firstShortest_split[of _ "[]" _ ?cands]) simp_all
      have "findBestDataSourceSet w (Some r) dss = (Inr ?planned, Some r)"
        using True fu one by (subst findBestDataSourceSet.simps) simp
      with True fs cover[OF fs] show ?thesis by (simp add: selectorOutcome_def)
    next
      case notone: False
      let ?out = "adoptShorter ?planned ?cands"
      have inv: "?refs = [] \<longrightarrow> ?planned = []" using p3 by simp
      have fs: "firstShortest ?out (?planned # ?cands)" by (rule adoptShorter_firstShortest)
      have "findBestDataSourceSet w (Some r) dss = (Inr ?out, Some r)"
        using True fu notone bestLoop_adopts[OF sub inv, of 0]
        by (subst findBestDataSourceSet.simps) simp
      with True fs cover[OF fs] show ?thesis by (simp add: selectorOutcome_def)
    qed
  qed
qed

lemma findBestDataSourceSet_reportOf:
  "findBestDataSourceSet w report dss = findBestDataSourceSet w (Some (reportOf report)) dss"
  by (cases report) (simp_all add: reportOf_def findBestDataSourceSet_None)

lemma minimalSublistCover_minimalCover:
  assumes "minimalSublistCover dss refs out"
  shows "minimalCover dss refs out"
  unfolding minimalCover_def
proof (intro conjI allI impI)
  fix S assume S: "set S \<subseteq> set dss \<and> resolves S refs"
  then obtain S' where S': "subseq S' dss" "set S' = set S" "length S' = card (set S)"
    using selection_as_subseq by blast
  from S S'(2) have "resolves S' refs" using resolves_mono by blast
  with assms S'(1) have "length out \<le> length S'" by (simp add: minimalSublistCover_def)
  with S'(3) show "length out \<le> card (set S)" by simp
qed (use assms in \<open>simp_all add: minimalSublistCover_def\<close>)

section \<open>Claims about the minimal-cover selector\<close>

text \<open>
  Claim C1. When every field the walk enters is covered by at least one configured data
  source, \<open>findBestDataSourceSet\<close> returns a set of used data sources whenever the
  walk leaves the report without errors, and whatever set it returns is of minimum
  cardinality: its data sources are taken from the configured list, they resolve every
  field, and no selection of configured data sources that resolves every field has fewer
  members than the result has entries.
\<close>

theorem findBestDataSourceSet_minimum_cardinality:
  assumes "resolves dss (enteredFields w)"
  shows "(\<not> HasErrors (walkReport w (reportOf report)) \<longrightarrow>
            (\<exists>out. fst (findBestDataSourceSet w report dss) = Inr out)) \<and>
         (\<forall>out. fst (findBestDataSourceSet w report dss) = Inr out \<longrightarrow>
            minimalCover dss (enteredFields w) out)"
proof (cases "HasErrors (walkReport w (reportOf report))")
  case True
  then show ?thesis
    using findBestDataSourceSet_dirty[OF True, of dss] findBestDataSourceSet_reportOf[of w report dss]
    by simp
next
  case False
  from findBestDataSourceSet_clean[OF False, of dss] show ?thesis
  proof (cases rule: selectorOutcome_cases)
    case (found out)
    then show ?thesis
      using False findBestDataSourceSet_reportOf[of w report dss] minimalSublistCover_minimalCover
      by simp
  next
    case (failed t f)
    with assms show ?thesis by simp
  qed
qed

theorem findBestDataSourceSet_minimum_cardinality_witness:
  "resolves [exA, exB, exC] (enteredFields exWalk) \<and>
   fst (findBestDataSourceSet exWalk None [exA, exB, exC]) =
     Inr [\<lparr>DataSource = exC, UsedNodes = [\<lparr>TypeName = ''Query'', FieldName = ''a''\<rparr>,
                                          \<lparr>TypeName = ''Query'', FieldName = ''b''\<rparr>]\<rparr>] \<and>
   minimalCover [exA, exB, exC] (enteredFields exWalk)
     [\<lparr>DataSource = exC, UsedNodes = [\<lparr>TypeName = ''Query'', FieldName = ''a''\<rparr>,
                                      \<lparr>TypeName = ''Query'', FieldName = ''b''\<rparr>]\<rparr>]"
proof -
  have r: "resolves [exA, exB, exC] (enteredFields exWalk)" by code_simp
  have e: "fst (findBestDataSourceSet exWalk None [exA, exB, exC]) =
     Inr [\<lparr>DataSource = exC, UsedNodes = [\<lparr>TypeName = ''Query'', FieldName = ''a''\<rparr>,
                                          \<lparr>TypeName = ''Query'', FieldName = ''b''\<rparr>]\<rparr>]"
    by code_simp
  from findBestDataSourceSet_minimum_cardinality[OF r, of None] r e show ?thesis by simp
qed



subsection \<open>The selector as the data-source filter of the planner\<close>










text \<open>
  Claim C10. When the operation has two or more fields that no configured data source
  covers (and the walk leaves the report without errors), the search does not stop at
  the first of them: every data source ends up with the used nodes of all the fields of
  the whole traversal that it is the first to cover; after each prefix of the traversal
  the recorded error names the last unresolvable field of that prefix, so each
  unresolvable field overwrites the error of the previous one; and the single error
  returned by \<open>findUsedDataSources\<close> and \<open>findBestDataSourceSet\<close> names the last
  unresolvable field in traversal order.
\<close>
theorem unresolved_fields_overwrite_error:
  assumes "\<not> HasErrors (walkReport w (reportOf report))"
    and "2 \<le> length (unresolved dss (enteredFields w))"
  shows "(\<forall>i<length dss. UsedNodes (dataSources (visited w dss) ! i) =
            map usedNodeOf (filter (\<lambda>ref. firstCovering dss ref = Some i) (enteredFields w))) \<and>
         (\<forall>k\<le>length (enteredFields w).
            err (foldl EnterField (visitorStart dss) (take k (enteredFields w))) =
              (if unresolved dss (take k (enteredFields w)) = [] then None
               else Some (errOperationFieldNotResolved
                            (fst (last (unresolved dss (take k (enteredFields w)))))
                            (snd (last (unresolved dss (take k (enteredFields w)))))))) \<and>
         fst (findUsedDataSources w (Some (reportOf report)) dss) =
           Inl (errOperationFieldNotResolved (fst (last (unresolved dss (enteredFields w))))
                                             (snd (last (unresolved dss (enteredFields w))))) \<and>
         fst (findBestDataSourceSet w report dss) =
           Inl (errOperationFieldNotResolved (fst (last (unresolved dss (enteredFields w))))
                                             (snd (last (unresolved dss (enteredFields w)))))"
proof -
  from assms(2) have "unresolved dss (enteredFields w) \<noteq> []" by auto
  then have nr: "\<not> resolves dss (enteredFields w)" by (simp add: unresolved_Nil_iff)
  show ?thesis
    using findUsedDataSources_clean[OF assms(1), of dss] nr
      findBestDataSourceSet_unresolved[OF assms(1) nr] findBestDataSourceSet_reportOf[of w report dss]
    by (simp add: visited_UsedNodes fields_err)
qed

theorem unresolved_fields_overwrite_error_witness:
  "\<not> HasErrors (walkReport exWalkXY (reportOf None)) \<and>
   2 \<le> length (unresolved [exA] (enteredFields exWalkXY)) \<and>
   UsedNodes (dataSources (visited exWalkXY [exA]) ! 0) = [\<lparr>TypeName = ''Query'', FieldName = ''a''\<rparr>] \<and>
   err (foldl EnterField (visitorStart [exA]) (take 1 (enteredFields exWalkXY))) =
     Some (errOperationFieldNotResolved ''Query'' ''x'') \<and>
   fst (findBestDataSourceSet exWalkXY None [exA]) = Inl (errOperationFieldNotResolved ''Query'' ''y'')"
proof -
  have h1: "\<not> HasErrors (walkReport exWalkXY (reportOf None))" by code_simp
  have h2: "2 \<le> length (unresolved [exA] (enteredFields exWalkXY))" by code_simp
  have l: "last (unresolved [exA] (enteredFields exWalkXY)) = (''Query'', ''y'')" by code_simp
  have u: "map usedNodeOf (filter (\<lambda>ref. firstCovering [exA] ref = Some 0) (enteredFields exWalkXY)) =
             [\<lparr>TypeName = ''Query'', FieldName = ''a''\<rparr>]" by code_simp
  have e: "err (foldl EnterField (visitorStart [exA]) (take 1 (enteredFields exWalkXY))) =
     Some (errOperationFieldNotResolved ''Query'' ''x'')" by code_simp
  from unresolved_fields_overwrite_error[OF h1 h2] l u
  have "UsedNodes (dataSources (visited exWalkXY [exA]) ! 0) = [\<lparr>TypeName = ''Query'', FieldName = ''a''\<rparr>] \<and>
        fst (findBestDataSourceSet exWalkXY None [exA]) = Inl (errOperationFieldNotResolved ''Query'' ''y'')"
    by simp
  with h1 h2 e show ?thesis by simp
qed

lemma findUsedDataSources_Inr:
  assumes "findUsedDataSources w report dss = (Inr out, report')"
  shows "out = usedOf w dss"
proof (cases report)
  case None
  with assms show ?thesis by (simp add: findUsedDataSources_def)
next
  case (Some r)
  with assms show ?thesis by (simp add: findUsedDataSources_Some split: if_splits)
qed

text \<open>
  Claim C6. The visitor keeps one entry per configured data source, in order. For every
  field the walk enters that some data source covers, a used node with the field's
  enclosing type name and field name is recorded against a covering data source, namely
  the first one of the list that covers the field; the used nodes of an entry are exactly
  those of the fields it is the first to cover. When \<open>findUsedDataSources\<close> returns a
  result, it consists of exactly the entries with at least one used node, so that a data
  source with no used node never appears in it.
\<close>
theorem used_nodes_recorded_against_first_covering_source:
  "length (dataSources (visited w dss)) = length dss \<and>
   (\<forall>ref\<in>set (enteredFields w). resolvable dss ref \<longrightarrow>
      (\<exists>i<length dss. firstCovering dss ref = Some i \<and> covers (dss ! i) ref \<and>
          DataSource (dataSources (visited w dss) ! i) = dss ! i \<and>
          usedNodeOf ref \<in> set (UsedNodes (dataSources (visited w dss) ! i)))) \<and>
   (\<forall>i<length dss. DataSource (dataSources (visited w dss) ! i) = dss ! i \<and>
      UsedNodes (dataSources (visited w dss) ! i) =
        map usedNodeOf (filter (\<lambda>ref. firstCovering dss ref = Some i) (enteredFields w))) \<and>
   (\<forall>out report'. findUsedDataSources w report dss = (Inr out, report') \<longrightarrow>
      out = filter (\<lambda>v. UsedNodes v \<noteq> []) (dataSources (visited w dss)))"
proof (intro conjI ballI allI impI)
  show "length (dataSources (visited w dss)) = length dss" by (rule visited_length)
next
  fix ref assume ref: "ref \<in> set (enteredFields w)" and "resolvable dss ref"
  then obtain i where i: "firstCovering dss ref = Some i"
    using firstCovering_None[of dss ref] by auto
  from firstCovering_Some[OF i] usedOf_covering[OF ref i] i
  show "\<exists>i<length dss. firstCovering dss ref = Some i \<and> covers (dss ! i) ref \<and>
          DataSource (dataSources (visited w dss) ! i) = dss ! i \<and>
          usedNodeOf ref \<in> set (UsedNodes (dataSources (visited w dss) ! i))"
    by blast
next
  fix i assume i: "i < length dss"
  show "DataSource (dataSources (visited w dss) ! i) = dss ! i"
    using visited_DataSource[of w dss] i by (metis nth_map visited_length)
  show "UsedNodes (dataSources (visited w dss) ! i) =
        map usedNodeOf (filter (\<lambda>ref. firstCovering dss ref = Some i) (enteredFields w))"
    by (rule visited_UsedNodes[OF i])
next
  fix out report' assume "findUsedDataSources w report dss = (Inr out, report')"
  from findUsedDataSources_Inr[OF this]
  show "out = filter (\<lambda>v. UsedNodes v \<noteq> []) (dataSources (visited w dss))"
    by (simp add: usedOf_def)
qed

theorem used_nodes_recorded_against_first_covering_source_witness:
  "(''Query'', ''a'') \<in> set (enteredFields exWalk) \<and> resolvable [exA, exB, exC] (''Query'', ''a'') \<and>
   findUsedDataSources exWalk (Some emptyReport) [exA, exB, exC] =
     (Inr [\<lparr>DataSource = exA, UsedNodes = [\<lparr>TypeName = ''Query'', FieldName = ''a''\<rparr>]\<rparr>,
           \<lparr>DataSource = exB, UsedNodes = [\<lparr>TypeName = ''Query'', FieldName = ''b''\<rparr>]\<rparr>], Some emptyReport) \<and>
   filter (\<lambda>v. UsedNodes v \<noteq> []) (dataSources (visited exWalk [exA, exB, exC])) =
     [\<lparr>DataSource = exA, UsedNodes = [\<lparr>TypeName = ''Query'', FieldName = ''a''\<rparr>]\<rparr>,
      \<lparr>DataSource = exB, UsedNodes = [\<lparr>TypeName = ''Query'', FieldName = ''b''\<rparr>]\<rparr>] \<and>
   UsedNodes (dataSources (visited exWalk [exA, exB, exC]) ! 2) = []"
proof -
  have m: "(''Query'', ''a'') \<in> set (enteredFields exWalk)" by code_simp
  have r: "resolvable [exA, exB, exC] (''Query'', ''a'')" by code_simp
  have e: "findUsedDataSources exWalk (Some emptyReport) [exA, exB, exC] =
     (Inr [\<lparr>DataSource = exA, UsedNodes = [\<lparr>TypeName = ''Query'', FieldName = ''a''\<rparr>]\<rparr>,
           \<lparr>DataSource = exB, UsedNodes = [\<lparr>TypeName = ''Query'', FieldName = ''b''\<rparr>]\<rparr>], Some emptyReport)"
    by code_simp
  have u: "map usedNodeOf (filter (\<lambda>ref. firstCovering [exA, exB, exC] ref = Some 2) (enteredFields exWalk)) = []"
    by code_simp
  note t = used_nodes_recorded_against_first_covering_source[of exWalk "[exA, exB, exC]" "Some emptyReport"]
  from t e have f: "filter (\<lambda>v. UsedNodes v \<noteq> []) (dataSources (visited exWalk [exA, exB, exC])) =
     [\<lparr>DataSource = exA, UsedNodes = [\<lparr>TypeName = ''Query'', FieldName = ''a''\<rparr>]\<rparr>,
      \<lparr>DataSource = exB, UsedNodes = [\<lparr>TypeName = ''Query'', FieldName = ''b''\<rparr>]\<rparr>]"
    by simp
  from t u have z: "UsedNodes (dataSources (visited exWalk [exA, exB, exC]) ! 2) = []"
    by simp
  from m r e f z show ?thesis by simp
qed

lemma findBestDataSourceSet_single:
  assumes "\<not> HasErrors (walkReport w r)" and "resolves dss (enteredFields w)"
    and "length (usedOf w dss) = 1"
  shows "findBestDataSourceSet w (Some r) dss = (Inr (usedOf w dss), Some r)"
  using assms findUsedDataSources_clean[OF assms(1), of dss]
  by (subst findBestDataSourceSet.simps) simp

lemma usedOf_first_covers_all:
  assumes "enteredFields w \<noteq> []" and "list_all (covers d) (enteredFields w)"
  shows "usedOf w (d # rest) = [\<lparr>DataSource = d, UsedNodes = map usedNodeOf (enteredFields w)\<rparr>]"
proof -
  let ?vs = "dataSources (visited w (d # rest))"
  have fc: "firstCovering (d # rest) ref = Some 0" if "ref \<in> set (enteredFields w)" for ref
    using that assms(2) by (simp add: list_all_iff)
  have all: "filter (\<lambda>ref. firstCovering (d # rest) ref = Some 0) (enteredFields w) = enteredFields w"
    using fc by (simp add: filter_id_conv)
  have none: "filter (\<lambda>ref. firstCovering (d # rest) ref = Some (Suc i)) (enteredFields w) = []" for i
    using fc by (simp add: filter_empty_conv)
  have len: "length ?vs = Suc (length rest)" by (simp add: visited_length)
  then obtain v0 vs' where vs: "?vs = v0 # vs'" by (cases ?vs) auto
  have "DataSource (?vs ! 0) = d"
    using visited_DataSource[of w "d # rest"] by (metis len nth_Cons_0 nth_map zero_less_Suc)
  moreover have "UsedNodes (?vs ! 0) = map usedNodeOf (enteredFields w)"
    using visited_UsedNodes[of 0 "d # rest" w] all by simp
  ultimately have v0: "v0 = \<lparr>DataSource = d, UsedNodes = map usedNodeOf (enteredFields w)\<rparr>"
    using vs by simp
  have "UsedNodes v = []" if "v \<in> set vs'" for v
  proof -
    from that obtain i where i: "i < length vs'" "vs' ! i = v" by (auto simp: in_set_conv_nth)
    with vs len have "Suc i < length (d # rest)" by simp
    from visited_UsedNodes[OF this, of w] none[of i] vs i(2) show ?thesis by simp
  qed
  then have "filter (\<lambda>v. UsedNodes v \<noteq> []) vs' = []" by (simp add: filter_empty_conv)
  with vs v0 assms(1) show ?thesis by (simp add: usedOf_def)
qed

text \<open>
  Claim C5. On a report without errors and fields that the configured data sources
  resolve, \<open>findBestDataSourceSet\<close> returns the first candidate of minimum length in
  the order in which the candidates are met: the result for the whole list first, then
  the results of the successful recursive calls by ascending excluded index; a later
  candidate of the same length never replaces an earlier one. No cost enters: in
  particular a first data source that covers every field is selected alone, whatever
  follows it, so that reordering the configured list changes the selection.
\<close>
theorem exclusion_order_breaks_ties:
  assumes "\<not> HasErrors (walkReport w (reportOf report))"
    and "resolves dss (enteredFields w)"
  shows "(\<exists>out. fst (findBestDataSourceSet w report dss) = Inr out \<and>
            firstShortest out (usedOf w dss # candidates w (Some (reportOf report)) dss 0)) \<and>
         (\<forall>d rest. dss = d # rest \<and> enteredFields w \<noteq> [] \<and> list_all (covers d) (enteredFields w) \<longrightarrow>
            fst (findBestDataSourceSet w report dss) =
              Inr [\<lparr>DataSource = d, UsedNodes = map usedNodeOf (enteredFields w)\<rparr>])"
proof (intro conjI allI impI)
  from findBestDataSourceSet_clean[OF assms(1), of dss] assms(2)
  show "\<exists>out. fst (findBestDataSourceSet w report dss) = Inr out \<and>
            firstShortest out (usedOf w dss # candidates w (Some (reportOf report)) dss 0)"
    using findBestDataSourceSet_reportOf[of w report dss] by (auto simp: selectorOutcome_def)
next
  fix d rest
  assume a: "dss = d # rest \<and> enteredFields w \<noteq> [] \<and> list_all (covers d) (enteredFields w)"
  then have u: "usedOf w dss = [\<lparr>DataSource = d, UsedNodes = map usedNodeOf (enteredFields w)\<rparr>]"
    using usedOf_first_covers_all by simp
  then have "length (usedOf w dss) = 1" by simp
  from findBestDataSourceSet_single[OF assms this] u
  show "fst (findBestDataSourceSet w report dss) =
              Inr [\<lparr>DataSource = d, UsedNodes = map usedNodeOf (enteredFields w)\<rparr>]"
    using findBestDataSourceSet_reportOf[of w report dss] by simp
qed

theorem exclusion_order_breaks_ties_witness:
  "\<not> HasErrors (walkReport exWalk (reportOf None)) \<and>
   resolves [exA, exB, exC, exC2] (enteredFields exWalk) \<and>
   resolves [exA, exB, exC2, exC] (enteredFields exWalk) \<and>
   fst (findBestDataSourceSet exWalk None [exA, exB, exC, exC2]) =
     Inr [\<lparr>DataSource = exC, UsedNodes = [\<lparr>TypeName = ''Query'', FieldName = ''a''\<rparr>,
                                          \<lparr>TypeName = ''Query'', FieldName = ''b''\<rparr>]\<rparr>] \<and>
   fst (findBestDataSourceSet exWalk None [exA, exB, exC2, exC]) =
     Inr [\<lparr>DataSource = exC2, UsedNodes = [\<lparr>TypeName = ''Query'', FieldName = ''a''\<rparr>,
                                           \<lparr>TypeName = ''Query'', FieldName = ''b''\<rparr>]\<rparr>] \<and>
   firstShortest
     [\<lparr>DataSource = exC, UsedNodes = [\<lparr>TypeName = ''Query'', FieldName = ''a''\<rparr>,
                                      \<lparr>TypeName = ''Query'', FieldName = ''b''\<rparr>]\<rparr>]
     (usedOf exWalk [exA, exB, exC, exC2] # candidates exWalk (Some (reportOf None)) [exA, exB, exC, exC2] 0)"
proof -
  have h1: "\<not> HasErrors (walkReport exWalk (reportOf None))" by code_simp
  have h2: "resolves [exA, exB, exC, exC2] (enteredFields exWalk)" by code_simp
  have h3: "resolves [exA, exB, exC2, exC] (enteredFields exWalk)" by code_simp
  have e1: "fst (findBestDataSourceSet exWalk None [exA, exB, exC, exC2]) =
     Inr [\<lparr>DataSource = exC, UsedNodes = [\<lparr>TypeName = ''Query'', FieldName = ''a''\<rparr>,
                                          \<lparr>TypeName = ''Query'', FieldName = ''b''\<rparr>]\<rparr>]" by code_simp
  have e2: "fst (findBestDataSourceSet exWalk None [exA, exB, exC2, exC]) =
     Inr [\<lparr>DataSource = exC2, UsedNodes = [\<lparr>TypeName = ''Query'', FieldName = ''a''\<rparr>,
                                           \<lparr>TypeName = ''Query'', FieldName = ''b''\<rparr>]\<rparr>]" by code_simp
  from exclusion_order_breaks_ties[OF h1 h2] e1
  have "firstShortest
     [\<lparr>DataSource = exC, UsedNodes = [\<lparr>TypeName = ''Query'', FieldName = ''a''\<rparr>,
                                      \<lparr>TypeName = ''Query'', FieldName = ''b''\<rparr>]\<rparr>]
     (usedOf exWalk [exA, exB, exC, exC2] # candidates exWalk (Some (reportOf None)) [exA, exB, exC, exC2] 0)"
    by auto
  with h1 h2 h3 e1 e2 show ?thesis by simp
qed

section \<open>Construction\<close>






section \<open>Selecting the operation\<close>

text \<open>
  Claim C9. With more than one operation definition and an operation name that is empty
  after trimming, \<open>selectOperation\<close> adds the external error that the operation name is
  required, and \<open>Plan\<close> returns no plan with the planner and the world untouched by any
  traversal. With a name that is not empty after trimming and names no operation of the
  document, it adds the external error that no operation of that name was found, and
  \<open>Plan\<close> stops in the same way. With exactly one operation definition and an empty
  name, that operation's name is selected in both visitors, nothing is added to the
  report, and on a report without errors \<open>Plan\<close> goes on with the preparation of the
  operation.
\<close>
theorem selectOperation_by_name:
  "(TrimSpace ext operationName = [] \<and> 1 < length (operationDefinitionNames ext w) \<longrightarrow>
      selectOperation ext p w operationName report =
        (p, AddExternalError ErrRequiredOperationNameIsMissing report) \<and>
      Plan ext p w operationName report includeQueryPlan =
        (None, p\<lparr>pvIncludeQueryPlans := includeQueryPlan\<rparr>, w,
         AddExternalError ErrRequiredOperationNameIsMissing report)) \<and>
   (TrimSpace ext operationName \<noteq> [] \<and>
    TrimSpace ext operationName \<notin> set (operationDefinitionNames ext w) \<longrightarrow>
      selectOperation ext p w operationName report =
        (p, AddExternalError (ErrOperationWithProvidedOperationNameNotFound (TrimSpace ext operationName)) report) \<and>
      Plan ext p w operationName report includeQueryPlan =
        (None, p\<lparr>pvIncludeQueryPlans := includeQueryPlan\<rparr>, w,
         AddExternalError (ErrOperationWithProvidedOperationNameNotFound (TrimSpace ext operationName)) report)) \<and>
   (TrimSpace ext operationName = [] \<and> operationDefinitionNames ext w = [name] \<longrightarrow>
      selectOperation ext p w operationName report =
        (p\<lparr>cvOperationName := name, pvOperationName := name\<rparr>, report) \<and>
      (\<not> HasErrors report \<longrightarrow>
         Plan ext p w operationName report includeQueryPlan =
           planFromPrepare ext
             (p\<lparr>pvIncludeQueryPlans := includeQueryPlan, cvOperationName := name, pvOperationName := name\<rparr>)
             w report includeQueryPlan))"
proof -
  have added: "HasErrors (AddExternalError e report)" for e
    by (simp add: HasErrors_def AddExternalError_def)
  show ?thesis
    by (auto simp: selectOperation_def Plan_def Let_def added)
qed

theorem selectOperation_by_name_witness:
  "TrimSpace exExt ''  '' = [] \<and> 1 < length (operationDefinitionNames exExt [''a'', ''b'']) \<and>
   Plan exExt exPlanner [''a'', ''b''] ''  '' emptyReport False =
     (None, exPlanner, [''a'', ''b''], AddExternalError ErrRequiredOperationNameIsMissing emptyReport) \<and>
   TrimSpace exExt '' c'' \<noteq> [] \<and> TrimSpace exExt '' c'' \<notin> set (operationDefinitionNames exExt [''a'', ''b'']) \<and>
   Plan exExt exPlanner [''a'', ''b''] '' c'' emptyReport False =
     (None, exPlanner, [''a'', ''b''],
      AddExternalError (ErrOperationWithProvidedOperationNameNotFound ''c'') emptyReport) \<and>
   TrimSpace exExt [] = [] \<and> operationDefinitionNames exExt [''a''] = [''a''] \<and>
   selectOperation exExt exPlanner [''a''] [] emptyReport =
     (exPlanner\<lparr>cvOperationName := ''a'', pvOperationName := ''a''\<rparr>, emptyReport) \<and>
   fst (Plan exExt exPlanner [''a''] [] emptyReport False) = Some 0"
proof -
  have t1: "TrimSpace exExt ''  '' = []" by code_simp
  have n1: "1 < length (operationDefinitionNames exExt [''a'', ''b''])" by code_simp
  have t2: "TrimSpace exExt '' c'' = ''c''" by code_simp
  have n2: "TrimSpace exExt '' c'' \<notin> set (operationDefinitionNames exExt [''a'', ''b''])" by code_simp
  have t3: "TrimSpace exExt [] = []" by code_simp
  have n3: "operationDefinitionNames exExt [''a''] = [''a'']" by code_simp
  have c: "\<not> HasErrors emptyReport" by code_simp
  have i: "exPlanner\<lparr>pvIncludeQueryPlans := False\<rparr> = exPlanner" by code_simp
  have r: "fst (planFromPrepare exExt
             (exPlanner\<lparr>pvIncludeQueryPlans := False, cvOperationName := ''a'', pvOperationName := ''a''\<rparr>)
             [''a''] emptyReport False) = Some 0" by code_simp
  note a = selectOperation_by_name[of exExt "''  ''" "[''a'', ''b'']" exPlanner emptyReport False]
  note b = selectOperation_by_name[of exExt "'' c''" "[''a'', ''b'']" exPlanner emptyReport False]
  note d = selectOperation_by_name[of exExt "[]" "[''a'']" exPlanner emptyReport False "''a''"]
  from a t1 n1 i have 1: "Plan exExt exPlanner [''a'', ''b''] ''  '' emptyReport False =
     (None, exPlanner, [''a'', ''b''], AddExternalError ErrRequiredOperationNameIsMissing emptyReport)"
    by simp
  from b t2 n2 i have 2: "Plan exExt exPlanner [''a'', ''b''] '' c'' emptyReport False =
     (None, exPlanner, [''a'', ''b''],
      AddExternalError (ErrOperationWithProvidedOperationNameNotFound ''c'') emptyReport)"
    by simp
  from d t3 n3 c r have 3: "selectOperation exExt exPlanner [''a''] [] emptyReport =
     (exPlanner\<lparr>cvOperationName := ''a'', pvOperationName := ''a''\<rparr>, emptyReport) \<and>
     fst (Plan exExt exPlanner [''a''] [] emptyReport False) = Some 0"
    by simp
  from t1 n1 1 t2 n2 2 t3 n3 3 show ?thesis by simp
qed

section \<open>The revisit loop\<close>


lemma HasErrors_AddInternalError: "HasErrors (AddInternalError e r)"
  by (simp add: HasErrors_def AddInternalError_def)








section \<open>The stages of Plan\<close>

lemma registerLoop_stops:
  assumes "registerLoop ext incl keys p w = (Some e, p', w')"
  shows "\<exists>ks key rest p1 w1. keys = ks @ key # rest \<and>
           registerLoop ext incl ks p w = (None, p1, w1) \<and>
           registerPlanner ext incl key p1 w1 = (Some e, p', w')"
  using assms
proof (induction keys arbitrary: p w)
  case Nil
  then show ?case by simp
next
  case (Cons key keys)
  obtain r p1 w1 where reg: "registerPlanner ext incl key p w = (r, p1, w1)" by (metis prod_cases3)
  show ?case
  proof (cases r)
    case None
    with Cons.prems reg have "registerLoop ext incl keys p1 w1 = (Some e, p', w')" by simp
    from Cons.IH[OF this] obtain ks k rest p2 w2 where
      "keys = ks @ k # rest" "registerLoop ext incl ks p1 w1 = (None, p2, w2)"
      "registerPlanner ext incl k p2 w2 = (Some e, p', w')" by blast
    with reg None show ?thesis
      by (intro exI[of _ "key # ks"] exI[of _ k] exI[of _ rest] exI[of _ p2] exI[of _ w2]) simp
  next
    case (Some e')
    with Cons.prems reg show ?thesis
      by (intro exI[of _ "[]"] exI[of _ key] exI[of _ keys] exI[of _ p] exI[of _ w]) simp
  qed
qed

lemma planFromWalk_plan:
  "planFromWalk ext p w report = (Some plan, p', w', r') \<Longrightarrow> \<not> HasErrors r'"
  by (auto simp: planFromWalk_def Let_def split: prod.splits if_splits)

lemma planFromRegistration_plan:
  "planFromRegistration ext p w report incl = (Some plan, p', w', r') \<Longrightarrow> \<not> HasErrors r'"
  by (auto simp: planFromRegistration_def Let_def split: prod.splits option.splits
        dest: planFromWalk_plan)

lemma planFromPaths_plan:
  "planFromPaths ext p w report incl = (Some plan, p', w', r') \<Longrightarrow> \<not> HasErrors r'"
  by (auto simp: planFromPaths_def Let_def split: prod.splits if_splits
        dest: planFromRegistration_plan)

lemma planFromPrepare_plan:
  "planFromPrepare ext p w report incl = (Some plan, p', w', r') \<Longrightarrow> \<not> HasErrors r'"
  by (auto simp: planFromPrepare_def Let_def split: prod.splits if_splits
        dest: planFromPaths_plan)

lemma Plan_plan:
  "Plan ext p w name report incl = (Some plan, p', w', r') \<Longrightarrow> \<not> HasErrors r'"
  by (auto simp: Plan_def Let_def split: prod.splits if_splits
        dest: planFromPrepare_plan)

text \<open>
  Claim C4. \<open>Plan\<close> returns a plan only when the report it leaves holds no errors. At
  each stage (operation selection, operation preparation, planning-path search,
  registration of the per-data-source planners, final planning walk), when the report
  holds an error after the stage, the result is no plan together with the planner, the
  world and the report exactly as that stage left them, so no later stage has run;
  otherwise the result is that of the remaining stages. A failing registration adds its
  error as an internal error and ends the call right after that registration, the
  planners with later keys being left alone.
\<close>
theorem Plan_returns_at_first_failing_stage:
  "(fst (Plan ext p w operationName report incl) \<noteq> None \<longrightarrow>
      \<not> HasErrors (snd (snd (snd (Plan ext p w operationName report incl))))) \<and>
   (\<forall>p1 r1. selectOperation ext (p\<lparr>pvIncludeQueryPlans := incl\<rparr>) w operationName report = (p1, r1) \<longrightarrow>
      Plan ext p w operationName report incl =
        (if HasErrors r1 then (None, p1, w, r1) else planFromPrepare ext p1 w r1 incl)) \<and>
   (\<forall>w2 r2. prepareOperationWalk ext w report = (w2, r2) \<longrightarrow>
      planFromPrepare ext p w report incl =
        (if HasErrors r2 then (None, p, w2, r2) else planFromPaths ext p w2 r2 incl)) \<and>
   (\<forall>p3 w3 r3. findPlanningPaths ext p w report = (p3, w3, r3) \<longrightarrow>
      planFromPaths ext p w report incl =
        (if HasErrors r3 then (None, p3, w3, r3) else planFromRegistration ext p3 w3 r3 incl)) \<and>
   (\<forall>e p4 w4. registerLoop ext incl [0..<length (cvPlanners p)] (p\<lparr>pvPlanners := cvPlanners p\<rparr>)
                (setupPlanningWalker ext w) = (Some e, p4, w4) \<longrightarrow>
      planFromRegistration ext p w report incl = (None, p4, w4, AddInternalError (ErrOther e) report) \<and>
      HasErrors (AddInternalError (ErrOther e) report) \<and>
      (\<exists>ks key rest p' w'. [0..<length (cvPlanners p)] = ks @ key # rest \<and>
         registerLoop ext incl ks (p\<lparr>pvPlanners := cvPlanners p\<rparr>) (setupPlanningWalker ext w) = (None, p', w') \<and>
         registerPlanner ext incl key p' w' = (Some e, p4, w4))) \<and>
   (\<forall>p4 w4. registerLoop ext incl [0..<length (cvPlanners p)] (p\<lparr>pvPlanners := cvPlanners p\<rparr>)
                (setupPlanningWalker ext w) = (None, p4, w4) \<longrightarrow>
      planFromRegistration ext p w report incl = planFromWalk ext p4 w4 report) \<and>
   (\<forall>p5 w5 r5. planningWalk ext p w report = (p5, w5, r5) \<longrightarrow>
      planFromWalk ext p w report =
        (if HasErrors r5 then (None, p5, w5, r5) else (pvPlan p5, p5, w5, r5)))"
proof (intro conjI allI impI)
  show "\<not> HasErrors (snd (snd (snd (Plan ext p w operationName report incl))))"
    if "fst (Plan ext p w operationName report incl) \<noteq> None"
  proof -
    obtain r p' w' r' where P: "Plan ext p w operationName report incl = (r, p', w', r')"
      by (metis prod_cases4)
    with that obtain plan where "r = Some plan" by auto
    with P Plan_plan[of ext p w operationName report incl plan p' w' r'] show ?thesis by simp
  qed
next
  fix p1 r1 assume "selectOperation ext (p\<lparr>pvIncludeQueryPlans := incl\<rparr>) w operationName report = (p1, r1)"
  then show "Plan ext p w operationName report incl =
        (if HasErrors r1 then (None, p1, w, r1) else planFromPrepare ext p1 w r1 incl)"
    by (simp add: Plan_def)
next
  fix w2 r2 assume "prepareOperationWalk ext w report = (w2, r2)"
  then show "planFromPrepare ext p w report incl =
        (if HasErrors r2 then (None, p, w2, r2) else planFromPaths ext p w2 r2 incl)"
    by (simp add: planFromPrepare_def)
next
  fix p3 w3 r3 assume "findPlanningPaths ext p w report = (p3, w3, r3)"
  then show "planFromPaths ext p w report incl =
        (if HasErrors r3 then (None, p3, w3, r3) else planFromRegistration ext p3 w3 r3 incl)"
    by (simp add: planFromPaths_def)
next
  fix e p4 w4
  assume reg: "registerLoop ext incl [0..<length (cvPlanners p)] (p\<lparr>pvPlanners := cvPlanners p\<rparr>)
                (setupPlanningWalker ext w) = (Some e, p4, w4)"
  then show "planFromRegistration ext p w report incl = (None, p4, w4, AddInternalError (ErrOther e) report)"
    by (simp add: planFromRegistration_def Let_def)
  show "HasErrors (AddInternalError (ErrOther e) report)" by (rule HasErrors_AddInternalError)
  from registerLoop_stops[OF reg]
  show "\<exists>ks key rest p' w'. [0..<length (cvPlanners p)] = ks @ key # rest \<and>
         registerLoop ext incl ks (p\<lparr>pvPlanners := cvPlanners p\<rparr>) (setupPlanningWalker ext w) = (None, p', w') \<and>
         registerPlanner ext incl key p' w' = (Some e, p4, w4)" .
next
  fix p4 w4
  assume "registerLoop ext incl [0..<length (cvPlanners p)] (p\<lparr>pvPlanners := cvPlanners p\<rparr>)
                (setupPlanningWalker ext w) = (None, p4, w4)"
  then show "planFromRegistration ext p w report incl = planFromWalk ext p4 w4 report"
    by (simp add: planFromRegistration_def Let_def)
next
  fix p5 w5 r5 assume "planningWalk ext p w report = (p5, w5, r5)"
  then show "planFromWalk ext p w report =
        (if HasErrors r5 then (None, p5, w5, r5) else (pvPlan p5, p5, w5, r5))"
    by (simp add: planFromWalk_def)
qed

theorem Plan_returns_at_first_failing_stage_witness:
  "Plan exExt exPlanner [''a''] ''a'' emptyReport False =
     (Some 0, exPlanner\<lparr>cvOperationName := ''a'', cvDataSources := [exA, exB], pvOperationName := ''a'',
                         pvPlan := Some 0\<rparr>, [''a''], emptyReport) \<and>
   \<not> HasErrors emptyReport \<and>
   Plan exExtFailPrepare exPlanner [''a''] ''a'' emptyReport False =
     (None, exPlanner\<lparr>cvOperationName := ''a'', pvOperationName := ''a''\<rparr>, [''a''],
      AddInternalError (ErrOther ''normalization failed'') emptyReport) \<and>
   planFromRegistration exExtFailRegister (exPlanner\<lparr>cvPlanners := [exPathsPruned, exPathsPruned]\<rparr>)
       [''a''] emptyReport False =
     (None, exPlanner\<lparr>cvPlanners := [exPathsPruned, exPathsPruned], pvPlanners := [exPathsPruned, exPathsPruned]\<rparr>,
      [''a'', ''registered''], AddInternalError (ErrOther ''registration failed'') emptyReport)"
proof -
  note ok = Plan_returns_at_first_failing_stage[of exExt exPlanner "[''a'']" "''a''" emptyReport False]
  note prep = Plan_returns_at_first_failing_stage[of exExtFailPrepare
                "exPlanner\<lparr>cvOperationName := ''a'', pvOperationName := ''a''\<rparr>" "[''a'']" "''a''" emptyReport False]
  note reg = Plan_returns_at_first_failing_stage[of exExtFailRegister
                "exPlanner\<lparr>cvPlanners := [exPathsPruned, exPathsPruned]\<rparr>" "[''a'']" "''a''" emptyReport False]
  have 1: "Plan exExt exPlanner [''a''] ''a'' emptyReport False =
     (Some 0, exPlanner\<lparr>cvOperationName := ''a'', cvDataSources := [exA, exB], pvOperationName := ''a'',
                         pvPlan := Some 0\<rparr>, [''a''], emptyReport)"
    by code_simp
  with ok have 2: "\<not> HasErrors emptyReport" by simp
  have s: "selectOperation exExtFailPrepare (exPlanner\<lparr>pvIncludeQueryPlans := False\<rparr>) [''a''] ''a'' emptyReport =
             (exPlanner\<lparr>cvOperationName := ''a'', pvOperationName := ''a''\<rparr>, emptyReport)"
    by code_simp
  have w: "prepareOperationWalk exExtFailPrepare [''a''] emptyReport =
             ([''a''], AddInternalError (ErrOther ''normalization failed'') emptyReport)"
    by code_simp
  have e: "HasErrors (AddInternalError (ErrOther ''normalization failed'') emptyReport)" by code_simp
  from prep w e have "planFromPrepare exExtFailPrepare (exPlanner\<lparr>cvOperationName := ''a'', pvOperationName := ''a''\<rparr>)
       [''a''] emptyReport False =
     (None, exPlanner\<lparr>cvOperationName := ''a'', pvOperationName := ''a''\<rparr>, [''a''],
      AddInternalError (ErrOther ''normalization failed'') emptyReport)"
    by simp
  moreover from Plan_returns_at_first_failing_stage[of exExtFailPrepare exPlanner "[''a'']" "''a''" emptyReport False] s 2
  have "Plan exExtFailPrepare exPlanner [''a''] ''a'' emptyReport False =
     planFromPrepare exExtFailPrepare (exPlanner\<lparr>cvOperationName := ''a'', pvOperationName := ''a''\<rparr>)
       [''a''] emptyReport False"
    by simp
  ultimately have 3: "Plan exExtFailPrepare exPlanner [''a''] ''a'' emptyReport False =
     (None, exPlanner\<lparr>cvOperationName := ''a'', pvOperationName := ''a''\<rparr>, [''a''],
      AddInternalError (ErrOther ''normalization failed'') emptyReport)"
    by simp
  have r: "registerLoop exExtFailRegister False [0..<length (cvPlanners (exPlanner\<lparr>cvPlanners := [exPathsPruned, exPathsPruned]\<rparr>))]
             (exPlanner\<lparr>cvPlanners := [exPathsPruned, exPathsPruned]\<rparr>
                \<lparr>pvPlanners := cvPlanners (exPlanner\<lparr>cvPlanners := [exPathsPruned, exPathsPruned]\<rparr>)\<rparr>)
             (setupPlanningWalker exExtFailRegister [''a'']) =
           (Some ''registration failed'',
            exPlanner\<lparr>cvPlanners := [exPathsPruned, exPathsPruned], pvPlanners := [exPathsPruned, exPathsPruned]\<rparr>,
            [''a'', ''registered''])"
    by code_simp
  from reg r have 4: "planFromRegistration exExtFailRegister (exPlanner\<lparr>cvPlanners := [exPathsPruned, exPathsPruned]\<rparr>)
       [''a''] emptyReport False =
     (None, exPlanner\<lparr>cvPlanners := [exPathsPruned, exPathsPruned], pvPlanners := [exPathsPruned, exPathsPruned]\<rparr>,
      [''a'', ''registered''], AddInternalError (ErrOther ''registration failed'') emptyReport)"
    by blast
  from 1 2 3 4 show ?thesis by simp
qed

section \<open>Pruning fragment paths\<close>












end
